theory Spec2Isabelle
  imports Main "HOL-Library.Sublist"
begin

section \<open>JavaScript strings\<close>

text \<open>
  The exporter \<^verbatim>\<open>assets/js/export-index-tree.js\<close> works on JavaScript strings. A string
  is modelled as a list of code units, and the model covers the code units below 256
  (the type \<^typ>\<open>char\<close>); \<^verbatim>\<open>null\<close> is \<^term>\<open>None\<close> of an option type.

  \<^item> \<^verbatim>\<open>toLowerCase\<close> maps A-Z and the capital letters U+00C0 to U+00DE (but not the
    multiplication sign U+00D7) to the code unit 32 above.
  \<^item> White space, for \<^verbatim>\<open>\s\<close> and \<^verbatim>\<open>trim\<close>, is TAB, LF, VT, FF, CR, SPACE and NBSP.
  \<^item> Line terminators, which the pattern character \<^verbatim>\<open>.\<close> refuses, are LF and CR.
  \<^item> Under the flag \<^verbatim>\<open>i\<close> two code units match when their canonical forms agree.
    The canonical form of a-z is the capital letter; a code unit from 128 on is never
    canonicalised to one below 128, and the patterns of the exporter hold code units
    below 128 only, so the canonical form of the other code units is left as it is.
\<close>

definition toLowerCase_unit :: "char \<Rightarrow> char" where
  "toLowerCase_unit c =
     (let n = (of_char c :: nat)
      in if (65 \<le> n \<and> n \<le> 90) \<or> (192 \<le> n \<and> n \<le> 222 \<and> n \<noteq> 215)
         then char_of (n + 32) else c)"

definition toLowerCase :: "string \<Rightarrow> string" where
  "toLowerCase s = map toLowerCase_unit s"

definition isWhiteSpace :: "char \<Rightarrow> bool" where
  "isWhiteSpace c = ((of_char c :: nat) \<in> {9, 10, 11, 12, 13, 32, 160})"

definition isLineTerminator :: "char \<Rightarrow> bool" where
  "isLineTerminator c = ((of_char c :: nat) \<in> {10, 13})"

definition trim :: "string \<Rightarrow> string" where
  "trim s = rev (dropWhile isWhiteSpace (rev (dropWhile isWhiteSpace s)))"

definition canonicalize :: "char \<Rightarrow> char" where
  "canonicalize c =
     (let n = (of_char c :: nat)
      in if 97 \<le> n \<and> n \<le> 122 then char_of (n - 32) else c)"

section \<open>The two patterns\<close>

text \<open>
  \<^verbatim>\<open>contents.match(re)\<close> with a pattern that has no flag \<^verbatim>\<open>g\<close> tries the pattern at
  offset 0, then 1, and so on up to the length of the string, and returns the first match.
  Both patterns are used for their one capture group, so a match is modelled by the
  captured text.
\<close>

fun lit_ci :: "string \<Rightarrow> string \<Rightarrow> string option" where
  "lit_ci [] s = Some s"
| "lit_ci (p # ps) [] = None"
| "lit_ci (p # ps) (c # cs) =
     (if canonicalize p = canonicalize c then lit_ci ps cs else None)"

fun regex_search :: "(string \<Rightarrow> 'a option) \<Rightarrow> string \<Rightarrow> 'a option" where
  "regex_search at [] = at []"
| "regex_search at (c # cs) =
     (case at (c # cs) of Some m \<Rightarrow> Some m | None \<Rightarrow> regex_search at cs)"

text \<open>
  \<^verbatim>\<open>/<title>(.*?)<\/title>/i\<close>: after the opening tag the lazy group takes as few
  characters as possible, so at each character the closing tag is tried first, and only
  when it does not match is the character consumed by \<^verbatim>\<open>.\<close> (which refuses a line
  terminator).
\<close>

fun title_group :: "string \<Rightarrow> string option" where
  "title_group [] = None"
| "title_group (c # cs) =
     (case lit_ci ''</title>'' (c # cs) of
        Some _ \<Rightarrow> Some []
      | None \<Rightarrow>
          if isLineTerminator c then None
          else map_option ((#) c) (title_group cs))"

definition title_at :: "string \<Rightarrow> string option" where
  "title_at s = (case lit_ci ''<title>'' s of None \<Rightarrow> None | Some r \<Rightarrow> title_group r)"

definition titleMatch :: "string \<Rightarrow> string option" where
  "titleMatch contents = regex_search title_at contents"

text \<open>
  \<^verbatim>\<open>/<meta\s+name=["']sitemap["']\s+content=["'](.*?)["']/i\<close>. What follows each
  \<^verbatim>\<open>\s+\<close> starts with a letter, so the greedy \<^verbatim>\<open>\s+\<close> can only succeed by taking
  every white space character there is: giving one back leaves a white space character
  where the letter has to be.
\<close>

definition isQuote :: "char \<Rightarrow> bool" where
  "isQuote c = (c = CHR 0x22 \<or> c = CHR 0x27)"

fun quote :: "string \<Rightarrow> string option" where
  "quote [] = None"
| "quote (c # cs) = (if isQuote c then Some cs else None)"

fun spaces :: "string \<Rightarrow> string option" where
  "spaces [] = None"
| "spaces (c # cs) = (if isWhiteSpace c then Some (dropWhile isWhiteSpace cs) else None)"

fun sitemap_group :: "string \<Rightarrow> string option" where
  "sitemap_group [] = None"
| "sitemap_group (c # cs) =
     (if isQuote c then Some []
      else if isLineTerminator c then None
      else map_option ((#) c) (sitemap_group cs))"

definition sitemap_at :: "string \<Rightarrow> string option" where
  "sitemap_at s =
     Option.bind (lit_ci ''<meta'' s) (\<lambda>r1.
     Option.bind (spaces r1) (\<lambda>r2.
     Option.bind (lit_ci ''name='' r2) (\<lambda>r3.
     Option.bind (quote r3) (\<lambda>r4.
     Option.bind (lit_ci ''sitemap'' r4) (\<lambda>r5.
     Option.bind (quote r5) (\<lambda>r6.
     Option.bind (spaces r6) (\<lambda>r7.
     Option.bind (lit_ci ''content='' r7) (\<lambda>r8.
     Option.bind (quote r8) sitemap_group))))))))"

definition sitemapMatch :: "string \<Rightarrow> string option" where
  "sitemapMatch contents = regex_search sitemap_at contents"

section \<open>Paths\<close>

text \<open>
  \<^verbatim>\<open>projectRoot\<close> is \<^verbatim>\<open>process.cwd()\<close>, an absolute normalised path, and every directory
  the walk visits is \<^verbatim>\<open>projectRoot\<close> followed by entry names. A full path is modelled by
  the list of the entry names below \<^verbatim>\<open>projectRoot\<close>. An entry name, as
  \<^verbatim>\<open>fs.readdirSync\<close> returns it, is not empty, is neither \<^verbatim>\<open>.\<close> nor \<^verbatim>\<open>..\<close> and holds no
  separator of the platform, so on such names

  \<^item> \<^verbatim>\<open>path.join(dir, entry.name)\<close> adds one segment to \<^verbatim>\<open>dir\<close>;
  \<^item> \<^verbatim>\<open>path.relative(projectRoot, fullPath)\<close> is the segments below the root, joined
    by the separator of the platform: \<^verbatim>\<open>/\<close> on POSIX, the backslash on Windows;
  \<^item> \<^verbatim>\<open>path.extname(name)\<close> is the part of the name from its last dot on, and the
    empty string when there is no dot, when the last dot is the first character, and for
    the name \<^verbatim>\<open>..\<close>.
\<close>

datatype platform = Posix | Win32

definition backslash :: char where
  "backslash = CHR 0x5C"

fun path_sep :: "platform \<Rightarrow> char" where
  "path_sep Posix = CHR ''/''"
| "path_sep Win32 = backslash"

fun join_with :: "char \<Rightarrow> string list \<Rightarrow> string" where
  "join_with s [] = []"
| "join_with s [x] = x"
| "join_with s (x # y # ys) = x @ s # join_with s (y # ys)"

definition path_join :: "string list \<Rightarrow> string \<Rightarrow> string list" where
  "path_join dir nm = dir @ [nm]"

definition path_relative :: "platform \<Rightarrow> string list \<Rightarrow> string" where
  "path_relative plat fullPath = join_with (path_sep plat) fullPath"

text \<open>\<^verbatim>\<open>.replace(/\\/g, '/')\<close>: every backslash becomes a slash.\<close>

definition replace_backslashes :: "string \<Rightarrow> string" where
  "replace_backslashes s = map (\<lambda>c. if c = backslash then CHR ''/'' else c) s"

fun last_dot :: "string \<Rightarrow> nat option" where
  "last_dot [] = None"
| "last_dot (c # cs) =
     (case last_dot cs of
        Some i \<Rightarrow> Some (Suc i)
      | None \<Rightarrow> if c = CHR ''.'' then Some 0 else None)"

definition path_extname :: "string \<Rightarrow> string" where
  "path_extname nm =
     (case last_dot nm of
        None \<Rightarrow> []
      | Some i \<Rightarrow> if i = 0 \<or> nm = ''..'' then [] else drop i nm)"

section \<open>The file system and the records\<close>

text \<open>
  What the walk reads from the file system is a tree: a directory entry and the result of
  \<^verbatim>\<open>readdirSync\<close> on it, or any other entry (the \<^verbatim>\<open>else\<close> branch takes everything that
  is not a directory) with the results of \<^verbatim>\<open>statSync\<close> (the size) and of
  \<^verbatim>\<open>readFileSync\<close> (the text). Each of the three calls can throw.
\<close>

datatype fs_error = EACCES | ENOENT | EISDIR | EIO

datatype dirent =
    FileEnt string "fs_error + nat" "fs_error + string"
  | DirEnt string "fs_error + dirent list"

fun entry_name :: "dirent \<Rightarrow> string" where
  "entry_name (FileEnt nm _ _) = nm"
| "entry_name (DirEnt nm _) = nm"

record entry_record =
  name :: string
  path :: string
  type :: string
  ext :: "string option"
  size' :: "nat option"
  title :: "string option"
  sitemap :: "string option"
  category :: "string option"

definition CATEGORY_MAP :: "(string \<times> string) list" where
  "CATEGORY_MAP =
     [(''.html'', ''markup''),
      (''.css'', ''stylesheet''),
      (''.js'', ''script''),
      (''.json'', ''data''),
      (''.jpg'', ''image''),
      (''.jpeg'', ''image''),
      (''.png'', ''image''),
      (''.gif'', ''image''),
      (''.svg'', ''image''),
      (''.ico'', ''image''),
      (''.mp3'', ''audio''),
      (''.wav'', ''audio''),
      (''.mp4'', ''video''),
      (''.txt'', ''document''),
      (''.md'', ''document''),
      (''.bat'', ''script''),
      (''.sh'', ''script'')]"

text \<open>
  \<^verbatim>\<open>CATEGORY_MAP[ext] || 'unknown'\<close>: the default stands in for a missing key and for
  a value that is falsy, which for a string is the empty one. (The extension is empty
  or starts with a dot, so the lookup never reaches a property inherited from
  \<^verbatim>\<open>Object.prototype\<close>.)
\<close>

definition category_of :: "string \<Rightarrow> string" where
  "category_of e =
     (case map_of CATEGORY_MAP e of
        None \<Rightarrow> ''unknown''
      | Some c \<Rightarrow> if c = [] then ''unknown'' else c)"

record walk_state =
  output' :: "entry_record list"
  folderCount :: nat
  fileCount :: nat
  parseWarnings :: nat

definition initial_state :: walk_state where
  "initial_state = \<lparr>output' = [], folderCount = 0, fileCount = 0, parseWarnings = 0\<rparr>"

section \<open>The walk\<close>

text \<open>
  The \<^verbatim>\<open>try\<close> block of an \<^verbatim>\<open>.html\<close> file: the title, the sitemap marker, and whether the
  \<^verbatim>\<open>catch\<close> branch ran. Only \<^verbatim>\<open>readFileSync\<close> can throw there, before either variable
  is assigned.
\<close>

definition html_metadata :: "fs_error + string \<Rightarrow> string option \<times> string option \<times> bool" where
  "html_metadata r =
     (case r of
        Inl err \<Rightarrow> (None, None, True)
      | Inr contents \<Rightarrow>
          (map_option trim (titleMatch contents),
           Some (case sitemapMatch contents of
                   Some v \<Rightarrow> toLowerCase v
                 | None \<Rightarrow> ''none''),
           False))"

definition relative_path :: "platform \<Rightarrow> string list \<Rightarrow> string" where
  "relative_path plat fullPath = replace_backslashes (path_relative plat fullPath)"

definition folder_record :: "string \<Rightarrow> string \<Rightarrow> entry_record" where
  "folder_record nm relativePath =
     \<lparr>name = nm, path = relativePath, type = ''folder'', ext = None, size' = None,
      title = None, sitemap = None, category = None\<rparr>"

text \<open>The \<^verbatim>\<open>if\<close> branch of the loop body, up to the recursive call.\<close>

definition folder_step :: "platform \<Rightarrow> string list \<Rightarrow> string \<Rightarrow> walk_state \<Rightarrow> walk_state" where
  "folder_step plat dir nm st =
     (let fullPath = path_join dir nm;
          relativePath = relative_path plat fullPath
      in st\<lparr>folderCount := folderCount st + 1,
            output' := output' st @ [folder_record nm relativePath]\<rparr>)"

text \<open>The \<^verbatim>\<open>else\<close> branch of the loop body; an exception of \<^verbatim>\<open>statSync\<close> leaves the walk.\<close>

definition file_step ::
  "platform \<Rightarrow> string list \<Rightarrow> string \<Rightarrow> fs_error + nat \<Rightarrow> fs_error + string \<Rightarrow>
   walk_state \<Rightarrow> fs_error + walk_state" where
  "file_step plat dir nm stat contents st =
     (let fullPath = path_join dir nm;
          relativePath = relative_path plat fullPath;
          st1 = st\<lparr>fileCount := fileCount st + 1\<rparr>;
          e = toLowerCase (path_extname nm)
      in case stat of
           Inl err \<Rightarrow> Inl err
         | Inr stats_size \<Rightarrow>
             (let cat = category_of e;
                  (ttl, smap, warned) =
                     (if e = ''.html'' then html_metadata contents else (None, None, False));
                  st2 = (if warned then st1\<lparr>parseWarnings := parseWarnings st1 + 1\<rparr> else st1)
              in Inr (st2\<lparr>output' := output' st2 @
                     [\<lparr>name = nm, path = relativePath, type = ''file'', ext = Some e,
                       size' = Some stats_size, title = ttl, sitemap = smap,
                       category = Some cat\<rparr>]\<rparr>)))"

text \<open>
  \<^verbatim>\<open>walk(dir)\<close> lists the directory and runs the loop \<^verbatim>\<open>for_entries\<close> over the entries;
  an exception of \<^verbatim>\<open>readdirSync\<close> leaves the walk, at any depth.
\<close>

function walk :: "platform \<Rightarrow> string list \<Rightarrow> fs_error + dirent list \<Rightarrow> walk_state \<Rightarrow> fs_error + walk_state"
  and for_entries :: "platform \<Rightarrow> string list \<Rightarrow> dirent list \<Rightarrow> walk_state \<Rightarrow> fs_error + walk_state"
where
  "walk plat dir (Inl err) st = Inl err"
| "walk plat dir (Inr entries) st = for_entries plat dir entries st"
| "for_entries plat dir [] st = Inr st"
| "for_entries plat dir (DirEnt nm listing # rest) st =
     (case walk plat (path_join dir nm) listing (folder_step plat dir nm st) of
        Inl err \<Rightarrow> Inl err
      | Inr st' \<Rightarrow> for_entries plat dir rest st')"
| "for_entries plat dir (FileEnt nm stat contents # rest) st =
     (case file_step plat dir nm stat contents st of
        Inl err \<Rightarrow> Inl err
      | Inr st' \<Rightarrow> for_entries plat dir rest st')"
  by pat_completeness auto

text \<open>
  The recursion follows the tree, which is finite: a call with a listing is above the
  loop over its entries, and the loop is above the listing of its first entry.
\<close>

termination
  by (relation "measure (\<lambda>x. case x of
         Inl (plat, dir, l, st) \<Rightarrow> 1 + 2 * size_sum (\<lambda>_. 0) (size_list size) l
       | Inr (plat, dir, es, st) \<Rightarrow> 2 * size_list size es)") auto

text \<open>The script: \<^verbatim>\<open>walk(projectRoot)\<close> on the initial counters and the empty output.\<close>

definition run :: "platform \<Rightarrow> fs_error + dirent list \<Rightarrow> fs_error + walk_state" where
  "run plat root = walk plat [] root initial_state"

section \<open>The tree that is walked\<close>

text \<open>
  The entries below the root in depth-first pre-order: an entry, then everything below
  it, then its next sibling, the siblings in the order of the listing. Each entry comes
  with its full path (the names from the root down to it).
\<close>

function preorder_listing :: "string list \<Rightarrow> fs_error + dirent list \<Rightarrow> (string list \<times> dirent) list"
  and preorder :: "string list \<Rightarrow> dirent list \<Rightarrow> (string list \<times> dirent) list"
where
  "preorder_listing dir (Inl err) = []"
| "preorder_listing dir (Inr entries) = preorder dir entries"
| "preorder dir [] = []"
| "preorder dir (DirEnt nm listing # rest) =
     (dir @ [nm], DirEnt nm listing) # preorder_listing (dir @ [nm]) listing @ preorder dir rest"
| "preorder dir (FileEnt nm stat contents # rest) =
     (dir @ [nm], FileEnt nm stat contents) # preorder dir rest"
  by pat_completeness auto

termination
  by (relation "measure (\<lambda>x. case x of
         Inl (dir, l) \<Rightarrow> 1 + 2 * size_sum (\<lambda>_. 0) (size_list size) l
       | Inr (dir, es) \<Rightarrow> 2 * size_list size es)") auto

text \<open>The number of files and of subdirectories of a tree, counted recursively.\<close>

function count_files_listing :: "fs_error + dirent list \<Rightarrow> nat"
  and count_files :: "dirent list \<Rightarrow> nat"
where
  "count_files_listing (Inl err) = 0"
| "count_files_listing (Inr entries) = count_files entries"
| "count_files [] = 0"
| "count_files (DirEnt nm listing # rest) = count_files_listing listing + count_files rest"
| "count_files (FileEnt nm stat contents # rest) = 1 + count_files rest"
  by pat_completeness auto

termination
  by (relation "measure (\<lambda>x. case x of
         Inl l \<Rightarrow> 1 + 2 * size_sum (\<lambda>_. 0) (size_list size) l
       | Inr es \<Rightarrow> 2 * size_list size es)") auto

function count_dirs_listing :: "fs_error + dirent list \<Rightarrow> nat"
  and count_dirs :: "dirent list \<Rightarrow> nat"
where
  "count_dirs_listing (Inl err) = 0"
| "count_dirs_listing (Inr entries) = count_dirs entries"
| "count_dirs [] = 0"
| "count_dirs (DirEnt nm listing # rest) = 1 + count_dirs_listing listing + count_dirs rest"
| "count_dirs (FileEnt nm stat contents # rest) = count_dirs rest"
  by pat_completeness auto

termination
  by (relation "measure (\<lambda>x. case x of
         Inl l \<Rightarrow> 1 + 2 * size_sum (\<lambda>_. 0) (size_list size) l
       | Inr es \<Rightarrow> 2 * size_list size es)") auto

text \<open>
  A tree on which no call is fatal: every directory can be listed and every file can be
  inspected by \<^verbatim>\<open>statSync\<close>. Whether the text of a file can be read plays no part.
\<close>

function no_fatal_listing :: "fs_error + dirent list \<Rightarrow> bool"
  and no_fatal :: "dirent list \<Rightarrow> bool"
where
  "no_fatal_listing (Inl err) = False"
| "no_fatal_listing (Inr entries) = no_fatal entries"
| "no_fatal [] = True"
| "no_fatal (DirEnt nm listing # rest) = (no_fatal_listing listing \<and> no_fatal rest)"
| "no_fatal (FileEnt nm (Inl err) contents # rest) = False"
| "no_fatal (FileEnt nm (Inr n) contents # rest) = no_fatal rest"
  by pat_completeness auto

termination
  by (relation "measure (\<lambda>x. case x of
         Inl l \<Rightarrow> 1 + 2 * size_sum (\<lambda>_. 0) (size_list size) l
       | Inr es \<Rightarrow> 2 * size_list size es)") auto

text \<open>The number of \<open>.html\<close> files of a tree whose text cannot be read.\<close>

function count_unreadable_listing :: "fs_error + dirent list \<Rightarrow> nat"
  and count_unreadable :: "dirent list \<Rightarrow> nat"
where
  "count_unreadable_listing (Inl err) = 0"
| "count_unreadable_listing (Inr entries) = count_unreadable entries"
| "count_unreadable [] = 0"
| "count_unreadable (DirEnt nm listing # rest) =
     count_unreadable_listing listing + count_unreadable rest"
| "count_unreadable (FileEnt nm stat (Inl err) # rest) =
     (if toLowerCase (path_extname nm) = ''.html'' then 1 else 0) + count_unreadable rest"
| "count_unreadable (FileEnt nm stat (Inr contents) # rest) = count_unreadable rest"
  by pat_completeness auto

termination
  by (relation "measure (\<lambda>x. case x of
         Inl l \<Rightarrow> 1 + 2 * size_sum (\<lambda>_. 0) (size_list size) l
       | Inr es \<Rightarrow> 2 * size_list size es)") auto

text \<open>The record that belongs to an entry with a given full path.\<close>

definition record_of :: "platform \<Rightarrow> string list \<times> dirent \<Rightarrow> entry_record" where
  "record_of plat x =
     (case x of
        (segs, DirEnt nm listing) \<Rightarrow> folder_record nm (relative_path plat segs)
      | (segs, FileEnt nm stat contents) \<Rightarrow>
          (let e = toLowerCase (path_extname nm);
               (ttl, smap, warned) =
                  (if e = ''.html'' then html_metadata contents else (None, None, False))
           in \<lparr>name = nm, path = relative_path plat segs, type = ''file'', ext = Some e,
               size' = (case stat of Inl err \<Rightarrow> None | Inr n \<Rightarrow> Some n),
               title = ttl, sitemap = smap, category = Some (category_of e)\<rparr>))"

section \<open>Entry names and paths\<close>

text \<open>
  A name that \<^verbatim>\<open>readdirSync\<close> can return on a platform: not empty, neither \<^verbatim>\<open>.\<close> nor
  \<^verbatim>\<open>..\<close>, without a slash and without the separator of the platform. On POSIX a name
  may hold a backslash; on Windows it cannot.
\<close>

definition valid_name :: "platform \<Rightarrow> string \<Rightarrow> bool" where
  "valid_name plat nm =
     (nm \<noteq> [] \<and> nm \<noteq> ''.'' \<and> nm \<noteq> ''..'' \<and> CHR ''/'' \<notin> set nm \<and> path_sep plat \<notin> set nm)"

text \<open>A tree of the file system: valid names, and no two entries of a directory share one.\<close>

function well_formed_listing :: "platform \<Rightarrow> fs_error + dirent list \<Rightarrow> bool"
  and well_formed :: "platform \<Rightarrow> dirent list \<Rightarrow> bool"
where
  "well_formed_listing plat (Inl err) = True"
| "well_formed_listing plat (Inr entries) = well_formed plat entries"
| "well_formed plat [] = True"
| "well_formed plat (DirEnt nm listing # rest) =
     (valid_name plat nm \<and> nm \<notin> entry_name ` set rest \<and>
      well_formed_listing plat listing \<and> well_formed plat rest)"
| "well_formed plat (FileEnt nm stat contents # rest) =
     (valid_name plat nm \<and> nm \<notin> entry_name ` set rest \<and> well_formed plat rest)"
  by pat_completeness auto

termination
  by (relation "measure (\<lambda>x. case x of
         Inl (plat, l) \<Rightarrow> 1 + 2 * size_sum (\<lambda>_. 0) (size_list size) l
       | Inr (plat, es) \<Rightarrow> 2 * size_list size es)") auto

text \<open>A tree in which no name holds a backslash.\<close>

function backslash_free_listing :: "fs_error + dirent list \<Rightarrow> bool"
  and backslash_free :: "dirent list \<Rightarrow> bool"
where
  "backslash_free_listing (Inl err) = True"
| "backslash_free_listing (Inr entries) = backslash_free entries"
| "backslash_free [] = True"
| "backslash_free (DirEnt nm listing # rest) =
     (backslash \<notin> set nm \<and> backslash_free_listing listing \<and> backslash_free rest)"
| "backslash_free (FileEnt nm stat contents # rest) =
     (backslash \<notin> set nm \<and> backslash_free rest)"
  by pat_completeness auto

termination
  by (relation "measure (\<lambda>x. case x of
         Inl l \<Rightarrow> 1 + 2 * size_sum (\<lambda>_. 0) (size_list size) l
       | Inr es \<Rightarrow> 2 * size_list size es)") auto

text \<open>The segments of a path: the pieces between its occurrences of a character.\<close>

fun split_on :: "char \<Rightarrow> string \<Rightarrow> string list" where
  "split_on c [] = [[]]"
| "split_on c (x # xs) =
     (if x = c then [] # split_on c xs
      else (case split_on c xs of
              [] \<Rightarrow> [[x]]
            | y # ys \<Rightarrow> (x # y) # ys))"

text \<open>A path \<open>q\<close> is nested under a path \<open>p\<close>: it starts with \<open>p\<close> and a slash.\<close>

definition nested_under :: "string \<Rightarrow> string \<Rightarrow> bool" where
  "nested_under q p = prefix (p @ ''/'') q"

text \<open>
  The order of the entries, on full paths: an entry is not above another one when its
  full path is not a proper extension of the other's.
\<close>

definition not_above :: "string list \<times> dirent \<Rightarrow> string list \<times> dirent \<Rightarrow> bool" where
  "not_above x y = (\<not> strict_prefix (fst y) (fst x))"

section \<open>What the patterns look for\<close>

text \<open>The capital letters A to Z, by their code units.\<close>

definition is_capital :: "char \<Rightarrow> bool" where
  "is_capital c = (65 \<le> (of_char c :: nat) \<and> (of_char c :: nat) \<le> 90)"

text \<open>
  Two code units are the same letter: they are equal, or one is a capital letter A to Z
  and the other is the small letter that belongs to it, 32 code units above.
\<close>

definition same_letter :: "char \<Rightarrow> char \<Rightarrow> bool" where
  "same_letter x y =
     (x = y \<or> (is_capital x \<and> (of_char y :: nat) = of_char x + 32) \<or>
              (is_capital y \<and> (of_char x :: nat) = of_char y + 32))"

text \<open>Two texts are equal up to the case of their letters.\<close>

definition ci_eq :: "string \<Rightarrow> string \<Rightarrow> bool" where
  "ci_eq a b = (map canonicalize a = map canonicalize b)"

text \<open>A text starts with a given word, up to case.\<close>

definition starts_ci :: "string \<Rightarrow> string \<Rightarrow> bool" where
  "starts_ci p s = (length p \<le> length s \<and> ci_eq (take (length p) s) p)"

text \<open>
  The text \<open>s\<close> starts with a title pair whose inner text is \<open>t\<close>: an opening tag, the
  inner text on one line, and the next closing tag, the tags in any case.
\<close>

definition title_pair :: "string \<Rightarrow> string \<Rightarrow> bool" where
  "title_pair s t =
     (\<exists>op cl post.
        s = op @ t @ cl @ post \<and> ci_eq op ''<title>'' \<and> ci_eq cl ''</title>'' \<and>
        (\<forall>c \<in> set t. \<not> isLineTerminator c) \<and>
        (\<forall>k < length t. \<not> starts_ci ''</title>'' (drop k (t @ cl @ post))))"



section \<open>Example pages\<close>




definition two_line_title_page :: string where
  "two_line_title_page =
     ''<title>My'' @ CHR 0x0A # ''Page</title><svg><title>Icon</title></svg>''"



section \<open>Example trees\<close>

text \<open>
  Three POSIX trees with a backslash in a name, each listing in the sorted order in which
  \<^verbatim>\<open>readdirSync\<close> returns names: a folder \<open>a\<close> that holds a file \<open>b\<close>, beside a
  file \<^verbatim>\<open>a\b\<close>; a folder \<open>x\<close> that holds a folder \<open>y\<close> with a file \<open>z\<close>, beside an
  empty folder \<^verbatim>\<open>x\y\<close>; and the files \<^verbatim>\<open>\x\<close> and \<^verbatim>\<open>a..b\<close>.
\<close>

definition clash_tree :: "fs_error + dirent list" where
  "clash_tree =
     Inr [DirEnt ''a'' (Inr [FileEnt ''b'' (Inr 2) (Inr [])]),
          FileEnt [CHR ''a'', backslash, CHR ''b''] (Inr 1) (Inr [])]"

definition order_tree :: "fs_error + dirent list" where
  "order_tree =
     Inr [DirEnt ''x'' (Inr [DirEnt ''y'' (Inr [FileEnt ''z'' (Inr 1) (Inr [])])]),
          DirEnt [CHR ''x'', backslash, CHR ''y''] (Inr [])]"

definition dots_tree :: "fs_error + dirent list" where
  "dots_tree =
     Inr [FileEnt [backslash, CHR ''x''] (Inr 1) (Inr []),
          FileEnt ''a..b'' (Inr 1) (Inr [])]"

text \<open>What the walk leaves behind on the three trees.\<close>

definition clash_state :: walk_state where
  "clash_state =
     \<lparr>output' =
        [\<lparr>name = ''a'', path = ''a'', type = ''folder'', ext = None, size' = None,
          title = None, sitemap = None, category = None\<rparr>,
         \<lparr>name = ''b'', path = ''a/b'', type = ''file'', ext = Some [], size' = Some 2,
          title = None, sitemap = None, category = Some ''unknown''\<rparr>,
         \<lparr>name = [CHR ''a'', backslash, CHR ''b''], path = ''a/b'', type = ''file'',
          ext = Some [], size' = Some 1, title = None, sitemap = None,
          category = Some ''unknown''\<rparr>],
      folderCount = 1, fileCount = 2, parseWarnings = 0\<rparr>"

definition order_state :: walk_state where
  "order_state =
     \<lparr>output' =
        [\<lparr>name = ''x'', path = ''x'', type = ''folder'', ext = None, size' = None,
          title = None, sitemap = None, category = None\<rparr>,
         \<lparr>name = ''y'', path = ''x/y'', type = ''folder'', ext = None, size' = None,
          title = None, sitemap = None, category = None\<rparr>,
         \<lparr>name = ''z'', path = ''x/y/z'', type = ''file'', ext = Some [], size' = Some 1,
          title = None, sitemap = None, category = Some ''unknown''\<rparr>,
         \<lparr>name = [CHR ''x'', backslash, CHR ''y''], path = ''x/y'', type = ''folder'',
          ext = None, size' = None, title = None, sitemap = None, category = None\<rparr>],
      folderCount = 3, fileCount = 1, parseWarnings = 0\<rparr>"

definition dots_state :: walk_state where
  "dots_state =
     \<lparr>output' =
        [\<lparr>name = [backslash, CHR ''x''], path = ''/x'', type = ''file'', ext = Some [],
          size' = Some 1, title = None, sitemap = None, category = Some ''unknown''\<rparr>,
         \<lparr>name = ''a..b'', path = ''a..b'', type = ''file'', ext = Some ''.b'',
          size' = Some 1, title = None, sitemap = None, category = Some ''unknown''\<rparr>],
      folderCount = 0, fileCount = 2, parseWarnings = 0\<rparr>"

text \<open>
  A page no call can inspect, such as a dangling link: \<^verbatim>\<open>statSync\<close> fails on it and its
  text cannot be read.
\<close>

definition broken_tree :: "fs_error + dirent list" where
  "broken_tree = Inr [FileEnt ''broken.html'' (Inl ENOENT) (Inl ENOENT)]"

text \<open>A tree whose names hold capital letters.\<close>

definition capitals_tree :: "fs_error + dirent list" where
  "capitals_tree =
     Inr [FileEnt ''A.TXT'' (Inr 5) (Inr []),
          DirEnt ''Img'' (Inr [FileEnt ''X.JPG'' (Inr 900) (Inr [])]),
          FileEnt ''README'' (Inr 12) (Inr [])]"

text \<open>A small project tree: two nested folders, an unreadable page and a plain file.\<close>

definition example_tree :: "fs_error + dirent list" where
  "example_tree =
     Inr [DirEnt ''assets''
            (Inr [DirEnt ''js'' (Inr [FileEnt ''export-index-tree.js'' (Inr 7400) (Inr [])]),
                  DirEnt ''data'' (Inr [])]),
          FileEnt ''index.html'' (Inr 57) (Inl EACCES),
          FileEnt ''README'' (Inr 12) (Inr [])]"

definition example_state :: walk_state where
  "example_state =
     \<lparr>output' =
        [\<lparr>name = ''assets'', path = ''assets'', type = ''folder'', ext = None, size' = None,
          title = None, sitemap = None, category = None\<rparr>,
         \<lparr>name = ''js'', path = ''assets/js'', type = ''folder'', ext = None, size' = None,
          title = None, sitemap = None, category = None\<rparr>,
         \<lparr>name = ''export-index-tree.js'', path = ''assets/js/export-index-tree.js'',
          type = ''file'', ext = Some ''.js'', size' = Some 7400, title = None,
          sitemap = None, category = Some ''script''\<rparr>,
         \<lparr>name = ''data'', path = ''assets/data'', type = ''folder'', ext = None,
          size' = None, title = None, sitemap = None, category = None\<rparr>,
         \<lparr>name = ''index.html'', path = ''index.html'', type = ''file'', ext = Some ''.html'',
          size' = Some 57, title = None, sitemap = None, category = Some ''markup''\<rparr>,
         \<lparr>name = ''README'', path = ''README'', type = ''file'', ext = Some [],
          size' = Some 12, title = None, sitemap = None, category = Some ''unknown''\<rparr>],
      folderCount = 3, fileCount = 3, parseWarnings = 1\<rparr>"

section \<open>The walk records the tree in pre-order\<close>

lemma file_step_Inr:
  "file_step plat dir nm stat contents st = Inr st' \<Longrightarrow>
     output' st' = output' st @ [record_of plat (dir @ [nm], FileEnt nm stat contents)]"
  by (auto simp: file_step_def record_of_def path_join_def Let_def
           split: sum.splits prod.splits if_splits)

lemma folder_step_output:
  "output' (folder_step plat dir nm st) =
     output' st @ [record_of plat (dir @ [nm], DirEnt nm listing)]"
  by (simp add: folder_step_def record_of_def path_join_def Let_def)

lemma walk_output:
  "walk plat dir l st = Inr st' \<Longrightarrow>
     output' st' = output' st @ map (record_of plat) (preorder_listing dir l)"
  and for_entries_output:
  "for_entries plat dir es st = Inr st' \<Longrightarrow>
     output' st' = output' st @ map (record_of plat) (preorder dir es)"
proof (induction plat dir l st and plat dir es st arbitrary: st' and st'
       rule: walk_for_entries.induct)
  case (4 plat dir nm listing rest st)
  from "4.prems" obtain st1 where
    w: "walk plat (path_join dir nm) listing (folder_step plat dir nm st) = Inr st1"
    and r: "for_entries plat dir rest st1 = Inr st'"
    by (auto split: sum.splits)
  from "4.IH"(1)[OF w] "4.IH"(2)[OF w r] show ?case
    by (simp add: folder_step_output[where listing = listing] path_join_def)
next
  case (5 plat dir nm stat contents rest st)
  from "5.prems" obtain st1 where
    f: "file_step plat dir nm stat contents st = Inr st1"
    and r: "for_entries plat dir rest st1 = Inr st'"
    by (auto split: sum.splits)
  from "5.IH"[OF f r] file_step_Inr[OF f] show ?case
    by simp
qed simp_all

lemma run_output:
  "run plat root = Inr st \<Longrightarrow> output' st = map (record_of plat) (preorder_listing [] root)"
  using walk_output[of plat "[]" root initial_state st]
  by (simp add: run_def initial_state_def)

section \<open>Completeness\<close>

lemma length_preorder_listing:
  "length (preorder_listing dir l) = count_files_listing l + count_dirs_listing l"
  and length_preorder:
  "length (preorder dir es) = count_files es + count_dirs es"
  by (induction dir l and dir es rule: preorder_listing_preorder.induct) simp_all

lemma file_step_counters:
  "file_step plat dir nm stat contents st = Inr st' \<Longrightarrow>
     fileCount st' = fileCount st + 1 \<and> folderCount st' = folderCount st"
  by (auto simp: file_step_def Let_def split: sum.splits prod.splits if_splits)

lemma folder_step_counters:
  "fileCount (folder_step plat dir nm st) = fileCount st \<and>
   folderCount (folder_step plat dir nm st) = folderCount st + 1"
  by (simp add: folder_step_def Let_def)

lemma walk_counters:
  "walk plat dir l st = Inr st' \<Longrightarrow>
     fileCount st' = fileCount st + count_files_listing l \<and>
     folderCount st' = folderCount st + count_dirs_listing l"
  and for_entries_counters:
  "for_entries plat dir es st = Inr st' \<Longrightarrow>
     fileCount st' = fileCount st + count_files es \<and>
     folderCount st' = folderCount st + count_dirs es"
proof (induction plat dir l st and plat dir es st arbitrary: st' and st'
       rule: walk_for_entries.induct)
  case (4 plat dir nm listing rest st)
  from "4.prems" obtain st1 where
    w: "walk plat (path_join dir nm) listing (folder_step plat dir nm st) = Inr st1"
    and r: "for_entries plat dir rest st1 = Inr st'"
    by (auto split: sum.splits)
  from "4.IH"(1)[OF w] "4.IH"(2)[OF w r] show ?case
    by (simp add: folder_step_counters)
next
  case (5 plat dir nm stat contents rest st)
  from "5.prems" obtain st1 where
    f: "file_step plat dir nm stat contents st = Inr st1"
    and r: "for_entries plat dir rest st1 = Inr st'"
    by (auto split: sum.splits)
  from "5.IH"[OF f r] file_step_counters[OF f] show ?case
    by simp
qed simp_all

lemma file_step_total:
  "\<exists>st'. file_step plat dir nm (Inr n) contents st = Inr st'"
  by (simp add: file_step_def Let_def split: prod.splits)

lemma walk_total:
  "no_fatal_listing l \<Longrightarrow> \<exists>st'. walk plat dir l st = Inr st'"
  and for_entries_total:
  "no_fatal es \<Longrightarrow> \<exists>st'. for_entries plat dir es st = Inr st'"
proof (induction plat dir l st and plat dir es st rule: walk_for_entries.induct)
  case (4 plat dir nm listing rest st)
  from "4.prems" have a: "no_fatal_listing listing" and b: "no_fatal rest" by simp_all
  from "4.IH"(1)[OF a] obtain st1 where
    w: "walk plat (path_join dir nm) listing (folder_step plat dir nm st) = Inr st1" ..
  from "4.IH"(2)[OF w b] w show ?case by simp
next
  case (5 plat dir nm stat contents rest st)
  from "5.prems" obtain n where s: "stat = Inr n" and b: "no_fatal rest"
    by (cases stat) simp_all
  from file_step_total[of plat dir nm n contents st] obtain st1 where
    f: "file_step plat dir nm stat contents st = Inr st1" unfolding s ..
  from "5.IH"[OF f b] f show ?case by simp
qed simp_all

text \<open>
  Claim C1. A walk that returns has appended exactly one record for each entry below the
  root, \<open>F + D\<close> records for a tree of \<open>F\<close> files and \<open>D\<close> subdirectories, and has
  counted \<open>F\<close> files and \<open>D\<close> folders; the records are those of the entries below the
  root, so the root has none. The walk returns whenever no directory listing and no
  \<^verbatim>\<open>statSync\<close> fails.
\<close>

theorem walk_records_every_entry_once:
  "(run plat root = Inr st \<longrightarrow>
      length (output' st) = count_files_listing root + count_dirs_listing root \<and>
      output' st = map (record_of plat) (preorder_listing [] root) \<and>
      fileCount st = count_files_listing root \<and>
      folderCount st = count_dirs_listing root) \<and>
   (no_fatal_listing root \<longrightarrow> (\<exists>st'. run plat root = Inr st'))"
proof (intro conjI impI)
  assume r: "run plat root = Inr st"
  then show "output' st = map (record_of plat) (preorder_listing [] root)"
    by (rule run_output)
  then show "length (output' st) = count_files_listing root + count_dirs_listing root"
    by (simp add: length_preorder_listing)
  from r walk_counters[of plat "[]" root initial_state st]
  show "fileCount st = count_files_listing root"
    and "folderCount st = count_dirs_listing root"
    by (simp_all add: run_def initial_state_def)
next
  assume "no_fatal_listing root"
  then show "\<exists>st'. run plat root = Inr st'"
    unfolding run_def by (rule walk_total)
qed

theorem walk_records_every_entry_once_witness:
  "no_fatal_listing example_tree \<and>
   (\<exists>st. run Win32 example_tree = Inr st \<and> length (output' st) = 6 \<and>
         fileCount st = 3 \<and> folderCount st = 3)"
proof -
  have nf: "no_fatal_listing example_tree"
    by (simp add: example_tree_def)
  have c: "count_files_listing example_tree = 3" "count_dirs_listing example_tree = 3"
    by (simp_all add: example_tree_def)
  from nf walk_records_every_entry_once[of Win32 example_tree] obtain st
    where r: "run Win32 example_tree = Inr st" by blast
  from r walk_records_every_entry_once[of Win32 example_tree st] c nf
  show ?thesis by auto
qed

section \<open>The fields of a record\<close>

lemma record_of_file_fields:
  "name (record_of plat (segs, FileEnt nm stat contents)) = nm"
  "path (record_of plat (segs, FileEnt nm stat contents)) = relative_path plat segs"
  "type (record_of plat (segs, FileEnt nm stat contents)) = ''file''"
  "ext (record_of plat (segs, FileEnt nm stat contents)) = Some (toLowerCase (path_extname nm))"
  "category (record_of plat (segs, FileEnt nm stat contents)) =
     Some (category_of (toLowerCase (path_extname nm)))"
  by (simp_all add: record_of_def Let_def split: prod.splits)

lemma record_of_folder_fields:
  "name (record_of plat (segs, DirEnt nm listing)) = nm"
  "path (record_of plat (segs, DirEnt nm listing)) = relative_path plat segs"
  "type (record_of plat (segs, DirEnt nm listing)) = ''folder''"
  "ext (record_of plat (segs, DirEnt nm listing)) = None"
  "category (record_of plat (segs, DirEnt nm listing)) = None"
  by (simp_all add: record_of_def folder_record_def)

section \<open>Classification\<close>

lemma toLowerCase_unit_not_capital: "\<not> is_capital (toLowerCase_unit c)"
  by (auto simp: toLowerCase_unit_def is_capital_def Let_def)

lemma toLowerCase_no_capital: "c \<in> set (toLowerCase s) \<Longrightarrow> \<not> is_capital c"
  by (auto simp: toLowerCase_def toLowerCase_unit_not_capital)

lemma toLowerCase_unit_capital:
  "is_capital c \<Longrightarrow> (of_char (toLowerCase_unit c) :: nat) = of_char c + 32"
  by (auto simp: toLowerCase_unit_def is_capital_def Let_def)

lemma toLowerCase_same_letters:
  "\<forall>c \<in> set s. (of_char c :: nat) < 128 \<Longrightarrow> list_all2 same_letter s (toLowerCase s)"
proof (induction s)
  case Nil
  then show ?case by (simp add: toLowerCase_def)
next
  case (Cons c cs)
  have "same_letter c (toLowerCase_unit c)"
  proof (cases "is_capital c")
    case True
    then show ?thesis by (simp add: same_letter_def toLowerCase_unit_capital)
  next
    case False
    with Cons.prems have "toLowerCase_unit c = c"
      by (auto simp: toLowerCase_unit_def is_capital_def Let_def)
    then show ?thesis by (simp add: same_letter_def)
  qed
  with Cons show ?case by (simp add: toLowerCase_def)
qed

lemma capital_names:
  "toLowerCase (path_extname ''X.JPG'') = ''.jpg''"
  "toLowerCase (path_extname ''A.TXT'') = ''.txt''"
  "toLowerCase (path_extname ''Index.HTML'') = ''.html''"
  by code_simp+

lemma category_of_unlisted:
  "e \<notin> fst ` set CATEGORY_MAP \<Longrightarrow> category_of e = ''unknown''"
  by (simp add: category_of_def map_of_eq_None_iff[THEN iffD2])

text \<open>
  Claim C5. In the output of a walk the category of a file record is a function of the
  lowercased extension of its name alone, and the category of a folder record is null.
  The function is the fixed table (seventeen extensions), and every other extension,
  the empty one too, gives \<open>unknown\<close>. Lowercasing leaves no capital letter A to Z,
  and on a text of code units below 128 it changes nothing but the case of letters. A
  file named \<open>x.jpg\<close> or \<open>X.JPG\<close> has the category \<open>image\<close>, a file named
  \<open>x.unknownext\<close> the category \<open>unknown\<close>.
\<close>

theorem category_by_extension:
  "(run plat root = Inr st \<longrightarrow>
      (\<forall>r \<in> set (output' st).
         (type r = ''file'' \<longrightarrow>
            category r = Some (category_of (toLowerCase (path_extname (name r))))) \<and>
         (type r = ''folder'' \<longrightarrow> category r = None))) \<and>
   (\<forall>c \<in> set (toLowerCase s). \<not> is_capital c) \<and>
   ((\<forall>c \<in> set s. (of_char c :: nat) < 128) \<longrightarrow> list_all2 same_letter s (toLowerCase s)) \<and>
   category_of ''.html'' = ''markup'' \<and> category_of ''.css'' = ''stylesheet'' \<and>
   category_of ''.js'' = ''script'' \<and> category_of ''.json'' = ''data'' \<and>
   category_of ''.jpg'' = ''image'' \<and> category_of ''.jpeg'' = ''image'' \<and>
   category_of ''.png'' = ''image'' \<and> category_of ''.gif'' = ''image'' \<and>
   category_of ''.svg'' = ''image'' \<and> category_of ''.ico'' = ''image'' \<and>
   category_of ''.mp3'' = ''audio'' \<and> category_of ''.wav'' = ''audio'' \<and>
   category_of ''.mp4'' = ''video'' \<and> category_of ''.txt'' = ''document'' \<and>
   category_of ''.md'' = ''document'' \<and> category_of ''.bat'' = ''script'' \<and>
   category_of ''.sh'' = ''script'' \<and>
   (e \<notin> {''.html'', ''.css'', ''.js'', ''.json'', ''.jpg'', ''.jpeg'', ''.png'', ''.gif'',
          ''.svg'', ''.ico'', ''.mp3'', ''.wav'', ''.mp4'', ''.txt'', ''.md'', ''.bat'', ''.sh''}
      \<longrightarrow> category_of e = ''unknown'') \<and>
   category (record_of plat (dir @ [''x.jpg''], FileEnt ''x.jpg'' stat contents)) = Some ''image'' \<and>
   category (record_of plat (dir @ [''X.JPG''], FileEnt ''X.JPG'' stat contents)) = Some ''image'' \<and>
   category (record_of plat (dir @ [''x.unknownext''], FileEnt ''x.unknownext'' stat contents))
     = Some ''unknown''"
proof -
  have a: "run plat root = Inr st \<longrightarrow>
      (\<forall>r \<in> set (output' st).
         (type r = ''file'' \<longrightarrow>
            category r = Some (category_of (toLowerCase (path_extname (name r))))) \<and>
         (type r = ''folder'' \<longrightarrow> category r = None))"
  proof (intro impI ballI)
    fix r assume "run plat root = Inr st" and "r \<in> set (output' st)"
    then obtain segs d where r: "r = record_of plat (segs, d)"
      by (auto simp: run_output)
    show "(type r = ''file'' \<longrightarrow>
            category r = Some (category_of (toLowerCase (path_extname (name r))))) \<and>
         (type r = ''folder'' \<longrightarrow> category r = None)"
      unfolding r by (cases d) (simp_all add: record_of_file_fields record_of_folder_fields)
  qed
  have l1: "\<forall>c \<in> set (toLowerCase s). \<not> is_capital c"
    by (simp add: toLowerCase_no_capital)
  have l2: "(\<forall>c \<in> set s. (of_char c :: nat) < 128) \<longrightarrow> list_all2 same_letter s (toLowerCase s)"
    by (simp add: toLowerCase_same_letters)
  have b: "category_of ''.html'' = ''markup''" "category_of ''.css'' = ''stylesheet''"
    "category_of ''.js'' = ''script''" "category_of ''.json'' = ''data''"
    "category_of ''.jpg'' = ''image''" "category_of ''.jpeg'' = ''image''"
    "category_of ''.png'' = ''image''" "category_of ''.gif'' = ''image''"
    "category_of ''.svg'' = ''image''" "category_of ''.ico'' = ''image''"
    "category_of ''.mp3'' = ''audio''" "category_of ''.wav'' = ''audio''"
    "category_of ''.mp4'' = ''video''" "category_of ''.txt'' = ''document''"
    "category_of ''.md'' = ''document''" "category_of ''.bat'' = ''script''"
    "category_of ''.sh'' = ''script''"
    by (simp_all add: category_of_def CATEGORY_MAP_def)
  have c: "e \<notin> {''.html'', ''.css'', ''.js'', ''.json'', ''.jpg'', ''.jpeg'', ''.png'', ''.gif'',
          ''.svg'', ''.ico'', ''.mp3'', ''.wav'', ''.mp4'', ''.txt'', ''.md'', ''.bat'', ''.sh''}
      \<longrightarrow> category_of e = ''unknown''"
  proof
    assume "e \<notin> {''.html'', ''.css'', ''.js'', ''.json'', ''.jpg'', ''.jpeg'', ''.png'', ''.gif'',
          ''.svg'', ''.ico'', ''.mp3'', ''.wav'', ''.mp4'', ''.txt'', ''.md'', ''.bat'', ''.sh''}"
    then have "e \<notin> fst ` set CATEGORY_MAP"
      by (simp add: CATEGORY_MAP_def)
    then show "category_of e = ''unknown''" by (rule category_of_unlisted)
  qed
  have x: "toLowerCase (path_extname ''x.jpg'') = ''.jpg''"
    "toLowerCase (path_extname ''x.unknownext'') = ''.unknownext''"
    by (simp_all add: path_extname_def toLowerCase_def toLowerCase_unit_def)
  have u: "category_of ''.unknownext'' = ''unknown''"
    by (simp add: category_of_def CATEGORY_MAP_def)
  have d: "category (record_of plat (dir @ [''x.jpg''], FileEnt ''x.jpg'' stat contents)) = Some ''image''"
    "category (record_of plat (dir @ [''X.JPG''], FileEnt ''X.JPG'' stat contents)) = Some ''image''"
    "category (record_of plat (dir @ [''x.unknownext''], FileEnt ''x.unknownext'' stat contents))
     = Some ''unknown''"
    by (simp_all only: record_of_file_fields x capital_names b u)
  from a l1 l2 b c d show ?thesis by blast
qed

theorem category_by_extension_witness:
  "\<exists>st. run Win32 capitals_tree = Inr st \<and>
     map name (output' st) = [''A.TXT'', ''Img'', ''X.JPG'', ''README''] \<and>
     map category (output' st) =
       [Some ''document'', None, Some ''image'', Some ''unknown'']"
proof -
  have "no_fatal_listing capitals_tree" by (simp add: capitals_tree_def)
  then obtain st where r: "run Win32 capitals_tree = Inr st"
    unfolding run_def using walk_total by blast
  have o: "output' st = map (record_of Win32) (preorder_listing [] capitals_tree)"
    using r by (rule run_output)
  have e: "toLowerCase (path_extname ''README'') = []"
    by (simp add: path_extname_def toLowerCase_def)
  have n: "map name (output' st) = [''A.TXT'', ''Img'', ''X.JPG'', ''README'']"
    unfolding o by (simp add: capitals_tree_def record_of_file_fields record_of_folder_fields)
  note th = category_by_extension[of Win32 capitals_tree st "[]" "[]"]
  from th r have "\<forall>r \<in> set (output' st).
         (type r = ''file'' \<longrightarrow>
            category r = Some (category_of (toLowerCase (path_extname (name r))))) \<and>
         (type r = ''folder'' \<longrightarrow> category r = None)"
    by blast
  then have "map category (output' st) =
       [Some (category_of ''.txt''), None, Some (category_of ''.jpg''), Some (category_of [])]"
    unfolding o
    by (simp add: capitals_tree_def record_of_file_fields record_of_folder_fields e capital_names)
  moreover have "category_of [] = ''unknown''" by (simp add: category_of_def CATEGORY_MAP_def)
  moreover from th have "category_of ''.txt'' = ''document''" "category_of ''.jpg'' = ''image''"
    by blast+
  ultimately have "map category (output' st) =
       [Some ''document'', None, Some ''image'', Some ''unknown'']"
    by simp
  with r n show ?thesis by (intro exI[of _ st]) simp
qed

section \<open>Extensions\<close>

lemma last_dot_None: "last_dot nm = None \<longleftrightarrow> CHR ''.'' \<notin> set nm"
  by (induction nm) (auto split: option.splits)

lemma last_dot_Some: "last_dot nm = Some i \<Longrightarrow> i < length nm \<and> nm ! i = CHR ''.''"
  by (induction nm arbitrary: i) (auto split: option.splits if_splits)

lemma path_extname_no_dot: "CHR ''.'' \<notin> set nm \<Longrightarrow> path_extname nm = []"
  by (simp add: path_extname_def last_dot_None[THEN iffD2])

lemma path_extname_suffix: "suffix (path_extname nm) nm"
  by (simp add: path_extname_def suffix_drop split: option.splits)

lemma path_extname_dot: "path_extname nm \<noteq> [] \<Longrightarrow> hd (path_extname nm) = CHR ''.''"
  by (auto simp: path_extname_def hd_drop_conv_nth dest: last_dot_Some split: option.splits if_splits)

lemma toLowerCase_dot: "s \<noteq> [] \<Longrightarrow> hd s = CHR ''.'' \<Longrightarrow> hd (toLowerCase s) = CHR ''.''"
  by (cases s) (simp_all add: toLowerCase_def toLowerCase_unit_def)

text \<open>
  Claim C6, as amended. In the output of a walk the extension of a folder record is null,
  and the extension of a file record is the lowercased \<^verbatim>\<open>path.extname\<close> of its name: it
  starts with the dot when the name has an extension, and it is the empty string, not
  null, when the name has none. The extension holds no capital letter A to Z, and
  lowercasing a text of code units below 128 changes nothing but the case of letters: a
  file named \<open>A.TXT\<close> has the extension \<open>.txt\<close>. \<^verbatim>\<open>path.extname\<close> is a suffix of
  the name, empty when the name has no dot.
\<close>

theorem ext_of_a_record:
  "(run plat root = Inr st \<longrightarrow>
      (\<forall>r \<in> set (output' st).
         (type r = ''folder'' \<longrightarrow> ext r = None) \<and>
         (type r = ''file'' \<longrightarrow>
            ext r = Some (toLowerCase (path_extname (name r))) \<and>
            (\<forall>c \<in> set (toLowerCase (path_extname (name r))). \<not> is_capital c) \<and>
            (path_extname (name r) \<noteq> [] \<longrightarrow> hd (toLowerCase (path_extname (name r))) = CHR ''.'') \<and>
            (path_extname (name r) = [] \<longrightarrow> ext r = Some [])))) \<and>
   ((\<forall>c \<in> set s. (of_char c :: nat) < 128) \<longrightarrow> list_all2 same_letter s (toLowerCase s)) \<and>
   ext (record_of plat (dir @ [''A.TXT''], FileEnt ''A.TXT'' stat contents)) = Some ''.txt'' \<and>
   suffix (path_extname nm) nm \<and>
   (CHR ''.'' \<notin> set nm \<longrightarrow> path_extname nm = [])"
proof (intro conjI impI ballI)
  fix r assume "run plat root = Inr st" and "r \<in> set (output' st)"
  then obtain segs d where r: "r = record_of plat (segs, d)"
    by (auto simp: run_output)
  { assume "type r = ''folder''"
    then show "ext r = None"
      unfolding r by (cases d) (simp_all add: record_of_file_fields record_of_folder_fields) }
  { assume "type r = ''file''"
    then show e: "ext r = Some (toLowerCase (path_extname (name r)))"
      unfolding r by (cases d) (simp_all add: record_of_file_fields record_of_folder_fields)
    { fix c assume "c \<in> set (toLowerCase (path_extname (name r)))"
      then show "\<not> is_capital c" by (rule toLowerCase_no_capital) }
    { assume "path_extname (name r) \<noteq> []"
      then show "hd (toLowerCase (path_extname (name r))) = CHR ''.''"
        by (simp add: toLowerCase_dot path_extname_dot) }
    { assume "path_extname (name r) = []"
      with e show "ext r = Some []" by (simp add: toLowerCase_def) } }
next
  assume "\<forall>c \<in> set s. (of_char c :: nat) < 128"
  then show "list_all2 same_letter s (toLowerCase s)" by (rule toLowerCase_same_letters)
next
  show "ext (record_of plat (dir @ [''A.TXT''], FileEnt ''A.TXT'' stat contents)) = Some ''.txt''"
    by (simp only: record_of_file_fields capital_names)
next
  show "suffix (path_extname nm) nm" by (rule path_extname_suffix)
next
  assume "CHR ''.'' \<notin> set nm"
  then show "path_extname nm = []" by (rule path_extname_no_dot)
qed

theorem ext_of_a_record_witness:
  "\<exists>st. run Win32 capitals_tree = Inr st \<and>
     map name (output' st) = [''A.TXT'', ''Img'', ''X.JPG'', ''README''] \<and>
     map ext (output' st) = [Some ''.txt'', None, Some ''.jpg'', Some []]"
proof -
  have "no_fatal_listing capitals_tree" by (simp add: capitals_tree_def)
  then obtain st where r: "run Win32 capitals_tree = Inr st"
    unfolding run_def using walk_total by blast
  have o: "output' st = map (record_of Win32) (preorder_listing [] capitals_tree)"
    using r by (rule run_output)
  have e: "toLowerCase (path_extname ''README'') = []"
    by (simp add: path_extname_def toLowerCase_def)
  have n: "map name (output' st) = [''A.TXT'', ''Img'', ''X.JPG'', ''README'']"
    unfolding o by (simp add: capitals_tree_def record_of_file_fields record_of_folder_fields)
  have "\<forall>r \<in> set (output' st).
         (type r = ''folder'' \<longrightarrow> ext r = None) \<and>
         (type r = ''file'' \<longrightarrow> ext r = Some (toLowerCase (path_extname (name r))))"
    using ext_of_a_record[of Win32 capitals_tree st] r by blast
  then have "map ext (output' st) = [Some ''.txt'', None, Some ''.jpg'', Some []]"
    unfolding o
    by (simp add: capitals_tree_def record_of_file_fields record_of_folder_fields e capital_names)
  with r n show ?thesis by (intro exI[of _ st]) simp
qed

text \<open>
  A file named \<open>README\<close> has no extension, and its record has the empty string as
  extension where the claim promises null.
\<close>

theorem ext_of_extensionless_file_counterexample:
  "path_extname ''README'' = [] \<and>
   run Posix (Inr [FileEnt ''README'' (Inr 12) (Inr [])]) =
     Inr \<lparr>output' = [\<lparr>name = ''README'', path = ''README'', type = ''file'', ext = Some [],
                      size' = Some 12, title = None, sitemap = None,
                      category = Some ''unknown''\<rparr>],
          folderCount = 0, fileCount = 1, parseWarnings = 0\<rparr> \<and>
   Some [] \<noteq> (None :: string option)"
  by (simp add: path_extname_def run_def initial_state_def file_step_def path_join_def
        relative_path_def path_relative_def replace_backslashes_def backslash_def
        toLowerCase_def category_of_def CATEGORY_MAP_def)

section \<open>Unreadable pages\<close>

lemma file_step_unreadable_html:
  assumes "toLowerCase (path_extname nm) = ''.html''"
  shows "file_step plat dir nm (Inr n) (Inl err) st =
     Inr (st\<lparr>fileCount := fileCount st + 1,
             parseWarnings := parseWarnings st + 1,
             output' := output' st @
               [\<lparr>name = nm, path = relative_path plat (dir @ [nm]), type = ''file'',
                 ext = Some ''.html'', size' = Some n, title = None, sitemap = None,
                 category = Some ''markup''\<rparr>]\<rparr>)"
  using assms
  by (simp add: file_step_def Let_def html_metadata_def path_join_def category_of_def
        CATEGORY_MAP_def)

lemma file_step_warnings:
  "file_step plat dir nm stat contents st = Inr st' \<Longrightarrow>
     parseWarnings st' = parseWarnings st +
       (case contents of
          Inl err \<Rightarrow> if toLowerCase (path_extname nm) = ''.html'' then 1 else 0
        | Inr text \<Rightarrow> 0)"
  by (auto simp: file_step_def Let_def html_metadata_def split: sum.splits if_splits)

lemma folder_step_warnings:
  "parseWarnings (folder_step plat dir nm st) = parseWarnings st"
  by (simp add: folder_step_def Let_def)

lemma walk_warnings:
  "walk plat dir l st = Inr st' \<Longrightarrow>
     parseWarnings st' = parseWarnings st + count_unreadable_listing l"
  and for_entries_warnings:
  "for_entries plat dir es st = Inr st' \<Longrightarrow>
     parseWarnings st' = parseWarnings st + count_unreadable es"
proof (induction plat dir l st and plat dir es st arbitrary: st' and st'
       rule: walk_for_entries.induct)
  case (4 plat dir nm listing rest st)
  from "4.prems" obtain st1 where
    w: "walk plat (path_join dir nm) listing (folder_step plat dir nm st) = Inr st1"
    and r: "for_entries plat dir rest st1 = Inr st'"
    by (auto split: sum.splits)
  from "4.IH"(1)[OF w] "4.IH"(2)[OF w r] show ?case
    by (simp add: folder_step_warnings)
next
  case (5 plat dir nm stat contents rest st)
  from "5.prems" obtain st1 where
    f: "file_step plat dir nm stat contents st = Inr st1"
    and r: "for_entries plat dir rest st1 = Inr st'"
    by (auto split: sum.splits)
  from "5.IH"[OF f r] file_step_warnings[OF f] show ?case
    by (cases contents) simp_all
qed simp_all

lemma run_warnings:
  "run plat root = Inr st \<Longrightarrow> parseWarnings st = count_unreadable_listing root"
  using walk_warnings[of plat "[]" root initial_state st]
  by (simp add: run_def initial_state_def)

lemma record_of_unreadable_html:
  assumes "toLowerCase (path_extname nm) = ''.html''"
  shows "record_of plat (segs, FileEnt nm (Inr n) (Inl err)) =
     \<lparr>name = nm, path = relative_path plat segs, type = ''file'', ext = Some ''.html'',
      size' = Some n, title = None, sitemap = None, category = Some ''markup''\<rparr>"
  using assms
  by (simp add: record_of_def Let_def html_metadata_def category_of_def CATEGORY_MAP_def)

text \<open>
  Claim C3, as amended. When the text of an \<open>.html\<close> file cannot be read and
  \<^verbatim>\<open>statSync\<close> succeeds on the file, the loop body does not fail: it adds one to the
  warning counter (and one to the file counter), appends a file record with the extension
  \<open>.html\<close>, the size, the category \<open>markup\<close> and null for title and sitemap, and the
  loop goes on with the next entry. A run that returns has recorded every entry, such
  files too, and its warning counter is the number of \<open>.html\<close> files whose text cannot
  be read; and a run returns whenever no directory listing and no \<^verbatim>\<open>statSync\<close> fails,
  whatever the reads of the file texts do.
\<close>

theorem unreadable_html_is_a_warning:
  "(toLowerCase (path_extname nm) = ''.html'' \<longrightarrow>
     (let st' = st\<lparr>fileCount := fileCount st + 1,
                   parseWarnings := parseWarnings st + 1,
                   output' := output' st @
                     [\<lparr>name = nm, path = relative_path plat (dir @ [nm]), type = ''file'',
                       ext = Some ''.html'', size' = Some n, title = None, sitemap = None,
                       category = Some ''markup''\<rparr>]\<rparr>
      in file_step plat dir nm (Inr n) (Inl err) st = Inr st' \<and>
         for_entries plat dir (FileEnt nm (Inr n) (Inl err) # rest) st =
           for_entries plat dir rest st') \<and>
     record_of plat (segs, FileEnt nm (Inr n) (Inl err)) =
       \<lparr>name = nm, path = relative_path plat segs, type = ''file'', ext = Some ''.html'',
        size' = Some n, title = None, sitemap = None, category = Some ''markup''\<rparr>) \<and>
   (run plat root = Inr final \<longrightarrow>
      output' final = map (record_of plat) (preorder_listing [] root) \<and>
      parseWarnings final = count_unreadable_listing root) \<and>
   (no_fatal_listing root \<longrightarrow>
      (\<exists>st''. run plat root = Inr st'' \<and>
         output' st'' = map (record_of plat) (preorder_listing [] root) \<and>
         parseWarnings st'' = count_unreadable_listing root))"
proof (intro impI conjI)
  assume h: "toLowerCase (path_extname nm) = ''.html''"
  show "let st' = st\<lparr>fileCount := fileCount st + 1,
                   parseWarnings := parseWarnings st + 1,
                   output' := output' st @
                     [\<lparr>name = nm, path = relative_path plat (dir @ [nm]), type = ''file'',
                       ext = Some ''.html'', size' = Some n, title = None, sitemap = None,
                       category = Some ''markup''\<rparr>]\<rparr>
      in file_step plat dir nm (Inr n) (Inl err) st = Inr st' \<and>
         for_entries plat dir (FileEnt nm (Inr n) (Inl err) # rest) st =
           for_entries plat dir rest st'"
    by (simp add: Let_def file_step_unreadable_html[OF h])
  show "record_of plat (segs, FileEnt nm (Inr n) (Inl err)) =
       \<lparr>name = nm, path = relative_path plat segs, type = ''file'', ext = Some ''.html'',
        size' = Some n, title = None, sitemap = None, category = Some ''markup''\<rparr>"
    using h by (rule record_of_unreadable_html)
next
  assume r: "run plat root = Inr final"
  then show "output' final = map (record_of plat) (preorder_listing [] root)"
    by (rule run_output)
  from r show "parseWarnings final = count_unreadable_listing root"
    by (rule run_warnings)
next
  assume "no_fatal_listing root"
  then obtain st'' where r: "run plat root = Inr st''"
    unfolding run_def using walk_total by blast
  with run_output[OF r] run_warnings[OF r]
  show "\<exists>st''. run plat root = Inr st'' \<and>
         output' st'' = map (record_of plat) (preorder_listing [] root) \<and>
         parseWarnings st'' = count_unreadable_listing root"
    by blast
qed

theorem unreadable_html_is_a_warning_witness:
  "toLowerCase (path_extname ''index.html'') = ''.html'' \<and>
   no_fatal_listing example_tree \<and>
   file_step Win32 [] ''index.html'' (Inr 57) (Inl EACCES) initial_state =
     Inr \<lparr>output' = [\<lparr>name = ''index.html'', path = ''index.html'', type = ''file'',
                      ext = Some ''.html'', size' = Some 57, title = None, sitemap = None,
                      category = Some ''markup''\<rparr>],
          folderCount = 0, fileCount = 1, parseWarnings = 1\<rparr> \<and>
   (\<exists>st. run Win32 example_tree = Inr st \<and> parseWarnings st = 1 \<and>
      output' st ! 4 =
        \<lparr>name = ''index.html'', path = ''index.html'', type = ''file'',
         ext = Some ''.html'', size' = Some 57, title = None, sitemap = None,
         category = Some ''markup''\<rparr>)"
proof -
  have h: "toLowerCase (path_extname ''index.html'') = ''.html''"
    by (simp add: path_extname_def toLowerCase_def toLowerCase_unit_def)
  have nf: "no_fatal_listing example_tree" by (simp add: example_tree_def)
  have p: "relative_path Win32 [''index.html''] = ''index.html''"
    by (simp add: relative_path_def path_relative_def replace_backslashes_def backslash_def)
  have c: "count_unreadable_listing example_tree = 1"
    by (simp add: example_tree_def h)
  note th = unreadable_html_is_a_warning[of "''index.html''" initial_state Win32 "[]" 57 EACCES
      "[]" "[''index.html'']" example_tree]
  from th h p have 1:
    "file_step Win32 [] ''index.html'' (Inr 57) (Inl EACCES) initial_state =
     Inr \<lparr>output' = [\<lparr>name = ''index.html'', path = ''index.html'', type = ''file'',
                      ext = Some ''.html'', size' = Some 57, title = None, sitemap = None,
                      category = Some ''markup''\<rparr>],
          folderCount = 0, fileCount = 1, parseWarnings = 1\<rparr>"
    by (simp add: Let_def initial_state_def)
  from th h p have rec:
    "record_of Win32 ([''index.html''], FileEnt ''index.html'' (Inr 57) (Inl EACCES)) =
       \<lparr>name = ''index.html'', path = ''index.html'', type = ''file'', ext = Some ''.html'',
        size' = Some 57, title = None, sitemap = None, category = Some ''markup''\<rparr>"
    by simp
  from th nf obtain st where r: "run Win32 example_tree = Inr st"
    and o: "output' st = map (record_of Win32) (preorder_listing [] example_tree)"
    and w: "parseWarnings st = count_unreadable_listing example_tree"
    by blast
  have "preorder_listing [] example_tree ! 4 =
      ([''index.html''], FileEnt ''index.html'' (Inr 57) (Inl EACCES))"
    and "length (preorder_listing [] example_tree) = 6"
    by (simp_all add: example_tree_def)
  then have "output' st ! 4 =
        \<lparr>name = ''index.html'', path = ''index.html'', type = ''file'',
         ext = Some ''.html'', size' = Some 57, title = None, sitemap = None,
         category = Some ''markup''\<rparr>"
    unfolding o using rec by simp
  with r w c have "\<exists>st. run Win32 example_tree = Inr st \<and> parseWarnings st = 1 \<and>
      output' st ! 4 =
        \<lparr>name = ''index.html'', path = ''index.html'', type = ''file'',
         ext = Some ''.html'', size' = Some 57, title = None, sitemap = None,
         category = Some ''markup''\<rparr>"
    by (intro exI[of _ st]) simp
  with h nf 1 show ?thesis by (intro conjI)
qed

text \<open>
  \<^verbatim>\<open>statSync\<close> is called outside the \<^verbatim>\<open>try\<close> block: on an \<open>.html\<close> entry that neither
  it nor \<^verbatim>\<open>readFileSync\<close> can reach, the loop body fails, no record is appended and the
  run fails.
\<close>

theorem unreadable_html_stat_fails_counterexample:
  "toLowerCase (path_extname ''broken.html'') = ''.html'' \<and>
   file_step Posix [] ''broken.html'' (Inl ENOENT) (Inl ENOENT) initial_state = Inl ENOENT \<and>
   run Posix broken_tree = Inl ENOENT"
  by (simp add: broken_tree_def run_def file_step_def Let_def path_extname_def toLowerCase_def
        toLowerCase_unit_def)

section \<open>Paths of the records\<close>

subsection \<open>Joining and splitting\<close>

lemma split_on_not_Nil: "split_on c s \<noteq> []"
  by (induction s) (auto split: list.splits)

lemma split_on_free: "c \<notin> set x \<Longrightarrow> split_on c x = [x]"
  by (induction x) auto

lemma split_on_append:
  "c \<notin> set x \<Longrightarrow> split_on c (x @ c # s) = x # split_on c s"
  by (induction x) (auto simp: split_on_not_Nil split: list.splits)

lemma split_on_join:
  "segs \<noteq> [] \<Longrightarrow> \<forall>x \<in> set segs. c \<notin> set x \<Longrightarrow> split_on c (join_with c segs) = segs"
  by (induction c segs rule: join_with.induct) (simp_all add: split_on_free split_on_append)

lemma map_join_with:
  "map f (join_with c segs) = join_with (f c) (map (map f) segs)"
  by (induction c segs rule: join_with.induct) simp_all

lemma replace_backslashes_id: "backslash \<notin> set x \<Longrightarrow> replace_backslashes x = x"
  by (induction x) (auto simp: replace_backslashes_def)

lemma relative_path_join:
  assumes "\<forall>x \<in> set segs. backslash \<notin> set x"
  shows "relative_path plat segs = join_with CHR ''/'' segs"
proof -
  have m: "map replace_backslashes segs = segs"
    using assms by (simp add: map_idI replace_backslashes_id)
  have "replace_backslashes (join_with c segs) =
          join_with (if c = backslash then CHR ''/'' else c) (map replace_backslashes segs)" for c
    unfolding replace_backslashes_def by (simp add: map_join_with)
  then show ?thesis
    unfolding relative_path_def path_relative_def
    by (cases plat) (simp_all add: m backslash_def)
qed


subsection \<open>The full paths of the entries\<close>

lemma preorder_listing_below:
  "(p, e) \<in> set (preorder_listing dir l) \<Longrightarrow> \<exists>nm more. p = dir @ nm # more"
  and preorder_below:
  "(p, e) \<in> set (preorder dir es) \<Longrightarrow>
     \<exists>nm more. p = dir @ nm # more \<and> nm \<in> entry_name ` set es"
proof (induction dir l and dir es rule: preorder_listing_preorder.induct)
  case (2 dir entries)
  then show ?case by auto
next
  case (4 dir nm listing rest)
  from "4.prems" consider "p = dir @ [nm]"
    | "(p, e) \<in> set (preorder_listing (dir @ [nm]) listing)"
    | "(p, e) \<in> set (preorder dir rest)"
    by auto
  then show ?case
  proof cases
    case 1
    then show ?thesis by simp
  next
    case 2
    from "4.IH"(1)[OF 2] show ?thesis by auto
  next
    case 3
    from "4.IH"(2)[OF 3] show ?thesis by auto
  qed
next
  case (5 dir nm stat contents rest)
  then show ?case by auto
qed simp_all

text \<open>On Windows the names of a well-formed tree hold no backslash.\<close>

lemma windows_listing_backslash_free:
  "well_formed_listing Win32 l \<Longrightarrow> backslash_free_listing l"
  and windows_backslash_free:
  "well_formed Win32 es \<Longrightarrow> backslash_free es"
  by (induction l and es rule: backslash_free_listing_backslash_free.induct)
     (simp_all add: valid_name_def)

lemma preorder_listing_names:
  "well_formed_listing plat l \<Longrightarrow> backslash_free_listing l \<Longrightarrow>
   \<forall>x \<in> set dir. P x \<Longrightarrow>
   (\<And>x. valid_name plat x \<Longrightarrow> backslash \<notin> set x \<Longrightarrow> P x) \<Longrightarrow>
   (p, e) \<in> set (preorder_listing dir l) \<Longrightarrow> \<forall>x \<in> set p. P x"
  and preorder_names:
  "well_formed plat es \<Longrightarrow> backslash_free es \<Longrightarrow>
   \<forall>x \<in> set dir. P x \<Longrightarrow>
   (\<And>x. valid_name plat x \<Longrightarrow> backslash \<notin> set x \<Longrightarrow> P x) \<Longrightarrow>
   (p, e) \<in> set (preorder dir es) \<Longrightarrow> \<forall>x \<in> set p. P x"
proof (induction dir l and dir es rule: preorder_listing_preorder.induct)
  case (4 dir nm listing rest)
  from "4.prems"(1,2) have nm: "P nm" by (simp add: "4.prems"(4))
  from "4.prems"(5) consider "p = dir @ [nm]"
    | "(p, e) \<in> set (preorder_listing (dir @ [nm]) listing)"
    | "(p, e) \<in> set (preorder dir rest)"
    by auto
  then show ?case
  proof cases
    case 1
    with nm "4.prems"(3) show ?thesis by simp
  next
    case 2
    show ?thesis
      by (rule "4.IH"(1)[OF _ _ _ "4.prems"(4) 2]) (use "4.prems" nm in simp_all)
  next
    case 3
    show ?thesis
      by (rule "4.IH"(2)[OF _ _ "4.prems"(3) "4.prems"(4) 3]) (use "4.prems" in simp_all)
  qed
next
  case (5 dir nm stat contents rest)
  from "5.prems"(1,2) have nm: "P nm" by (simp add: "5.prems"(4))
  from "5.prems"(5) consider "p = dir @ [nm]" | "(p, e) \<in> set (preorder dir rest)"
    by auto
  then show ?case
  proof cases
    case 1
    with nm "5.prems"(3) show ?thesis by simp
  next
    case 2
    show ?thesis
      by (rule "5.IH"[OF _ _ "5.prems"(3) "5.prems"(4) 2]) (use "5.prems" in simp_all)
  qed
qed simp_all

lemma preorder_listing_sorted:
  "well_formed_listing plat l \<Longrightarrow>
     sorted_wrt not_above (preorder_listing dir l) \<and> distinct (map fst (preorder_listing dir l))"
  and preorder_sorted:
  "well_formed plat es \<Longrightarrow>
     sorted_wrt not_above (preorder dir es) \<and> distinct (map fst (preorder dir es))"
proof (induction dir l and dir es rule: preorder_listing_preorder.induct)
  case (4 dir nm listing rest)
  let ?x = "(dir @ [nm], DirEnt nm listing)"
  let ?A = "preorder_listing (dir @ [nm]) listing"
  let ?B = "preorder dir rest"
  from "4.prems" have fresh: "nm \<notin> entry_name ` set rest"
    and wl: "well_formed_listing plat listing" and wr: "well_formed plat rest"
    by simp_all
  note A = "4.IH"(1)[OF wl] and B = "4.IH"(2)[OF wr]
  have inA: "\<exists>n more. fst a = dir @ nm # n # more" if "a \<in> set ?A" for a
    using preorder_listing_below[of "fst a" "snd a" "dir @ [nm]" listing] that by auto
  have inB: "\<exists>n more. fst b = dir @ n # more \<and> n \<noteq> nm" if "b \<in> set ?B" for b
    using preorder_below[of "fst b" "snd b" dir rest] that fresh by auto
  have h1: "not_above ?x y" if "y \<in> set ?A \<union> set ?B" for y
    using that inA[of y] inB[of y] by (auto simp: not_above_def dest!: prefix_length_less)
  have h2: "fst y \<noteq> dir @ [nm]" if "y \<in> set ?A \<union> set ?B" for y
    using that inA[of y] inB[of y] by auto
  have c1: "not_above a b" if "a \<in> set ?A" "b \<in> set ?B" for a b
    using inA[of a] inB[of b] that by (auto simp: not_above_def strict_prefix_def prefix_def)
  have c2: "fst a \<noteq> fst b" if "a \<in> set ?A" "b \<in> set ?B" for a b
    using inA[of a] inB[of b] that by auto
  have s1: "sorted_wrt not_above (?A @ ?B)"
    unfolding sorted_wrt_append using A B c1 by blast
  have s2: "\<forall>y \<in> set (?A @ ?B). not_above ?x y"
    using h1 by simp
  have d1: "distinct (map fst (?A @ ?B))"
    unfolding map_append distinct_append using A B c2 by force
  have d2: "fst ?x \<notin> set (map fst (?A @ ?B))"
    using h2 by force
  have e: "preorder dir (DirEnt nm listing # rest) = ?x # (?A @ ?B)" by simp
  show ?case unfolding e using s1 s2 d1 d2 by simp
next
  case (5 dir nm stat contents rest)
  let ?x = "(dir @ [nm], FileEnt nm stat contents)"
  let ?B = "preorder dir rest"
  from "5.prems" have fresh: "nm \<notin> entry_name ` set rest" and wr: "well_formed plat rest"
    by simp_all
  note B = "5.IH"[OF wr]
  have inB: "\<exists>n more. fst b = dir @ n # more \<and> n \<noteq> nm" if "b \<in> set ?B" for b
    using preorder_below[of "fst b" "snd b" dir rest] that fresh by auto
  have h1: "not_above ?x y" if "y \<in> set ?B" for y
    using that inB[of y] by (auto simp: not_above_def dest!: prefix_length_less)
  have h2: "fst y \<noteq> dir @ [nm]" if "y \<in> set ?B" for y
    using that inB[of y] by auto
  have s2: "\<forall>y \<in> set ?B. not_above ?x y"
    using h1 by simp
  have d2: "fst ?x \<notin> set (map fst ?B)"
    using h2 by force
  have e: "preorder dir (FileEnt nm stat contents # rest) = ?x # ?B" by simp
  show ?case unfolding e using B s2 d2 by simp
qed simp_all

subsection \<open>From full paths to the recorded paths\<close>

lemma split_on_append_any:
  "split_on c (s @ c # z) = split_on c s @ split_on c z"
  by (induction s) (auto simp: split_on_not_Nil split: list.splits)

lemma path_record_of: "path (record_of plat x) = relative_path plat (fst x)"
  by (cases x; cases "snd x") (simp_all add: record_of_file_fields record_of_folder_fields)

text \<open>What a well-formed tree without backslashes says about each full path.\<close>

lemma preorder_listing_plain:
  assumes "well_formed_listing plat root" and "backslash_free_listing root"
    and "x \<in> set (preorder_listing [] root)"
  shows "fst x \<noteq> []"
    and "\<forall>n \<in> set (fst x). n \<noteq> [] \<and> n \<noteq> ''..'' \<and> CHR ''/'' \<notin> set n \<and> backslash \<notin> set n"
proof -
  obtain p e where x: "x = (p, e)" by (cases x)
  from assms(3) preorder_listing_below[of p e "[]" root] show "fst x \<noteq> []"
    unfolding x by auto
  have "\<forall>n \<in> set p. n \<noteq> [] \<and> n \<noteq> ''..'' \<and> CHR ''/'' \<notin> set n \<and> backslash \<notin> set n"
    by (rule preorder_listing_names[OF assms(1,2) _ _ assms(3)[unfolded x]])
       (simp_all add: valid_name_def)
  then show "\<forall>n \<in> set (fst x). n \<noteq> [] \<and> n \<noteq> ''..'' \<and> CHR ''/'' \<notin> set n \<and> backslash \<notin> set n"
    unfolding x by simp
qed

lemma preorder_listing_path:
  assumes "well_formed_listing plat root" and "backslash_free_listing root"
    and "x \<in> set (preorder_listing [] root)"
  shows "relative_path plat (fst x) = join_with CHR ''/'' (fst x)"
    and "split_on CHR ''/'' (relative_path plat (fst x)) = fst x"
proof -
  note pl = preorder_listing_plain[OF assms]
  show a: "relative_path plat (fst x) = join_with CHR ''/'' (fst x)"
    using pl(2) by (simp add: relative_path_join)
  show "split_on CHR ''/'' (relative_path plat (fst x)) = fst x"
    unfolding a using pl by (simp add: split_on_join)
qed

subsection \<open>The example tree\<close>

lemma run_example_tree: "run Win32 example_tree = Inr example_state"
  by (simp add: example_tree_def example_state_def run_def initial_state_def file_step_def
        folder_step_def folder_record_def path_join_def relative_path_def path_relative_def
        replace_backslashes_def backslash_def path_extname_def toLowerCase_def
        toLowerCase_unit_def category_of_def CATEGORY_MAP_def html_metadata_def Let_def)

lemma example_tree_well_formed:
  "well_formed_listing Win32 example_tree" "backslash_free_listing example_tree"
  by (simp_all add: example_tree_def valid_name_def backslash_def)

subsection \<open>Order\<close>

text \<open>
  Claim C2, as amended. On a tree of the file system in which no name holds a backslash
  (on Windows no name does), the records are those of the entries in depth-first
  pre-order, siblings in the order of the listing, and whenever a record is a folder and
  the path of another record is nested under the folder's path, the index of the folder is
  the smaller one.
\<close>

theorem folder_before_nested:
  assumes "well_formed_listing plat root" and "backslash_free_listing root"
    and "run plat root = Inr st"
  shows "output' st = map (record_of plat) (preorder_listing [] root) \<and>
         (\<forall>i j. i < length (output' st) \<longrightarrow> j < length (output' st) \<longrightarrow>
                type (output' st ! i) = ''folder'' \<longrightarrow>
                nested_under (path (output' st ! j)) (path (output' st ! i)) \<longrightarrow> i < j)"
proof (intro conjI allI impI)
  let ?L = "preorder_listing [] root"
  show o: "output' st = map (record_of plat) ?L"
    using assms(3) by (rule run_output)
  fix i j
  assume i: "i < length (output' st)" and j: "j < length (output' st)"
    and n: "nested_under (path (output' st ! j)) (path (output' st ! i))"
  from i j o have iL: "i < length ?L" and jL: "j < length ?L" by simp_all
  then have mi: "?L ! i \<in> set ?L" and mj: "?L ! j \<in> set ?L" by simp_all
  let ?p = "fst (?L ! i)" and ?q = "fst (?L ! j)"
  have pi: "path (output' st ! i) = relative_path plat ?p"
    and pj: "path (output' st ! j) = relative_path plat ?q"
    using iL jL by (simp_all add: o path_record_of)
  from n obtain z where z: "relative_path plat ?q = relative_path plat ?p @ CHR ''/'' # z"
    unfolding nested_under_def pi pj prefix_def by auto
  have "?q = split_on CHR ''/'' (relative_path plat ?q)"
    using preorder_listing_path(2)[OF assms(1,2) mj] by simp
  also have "\<dots> = split_on CHR ''/'' (relative_path plat ?p) @ split_on CHR ''/'' z"
    unfolding z by (rule split_on_append_any)
  also have "\<dots> = ?p @ split_on CHR ''/'' z"
    using preorder_listing_path(2)[OF assms(1,2) mi] by simp
  finally have "strict_prefix ?p ?q"
    using split_on_not_Nil[of "CHR ''/''" z] by (auto simp: strict_prefix_def prefix_def)
  then have above: "\<not> not_above (?L ! j) (?L ! i)"
    by (simp add: not_above_def)
  have sorted: "sorted_wrt not_above ?L"
    using preorder_listing_sorted[OF assms(1)] by simp
  show "i < j"
  proof (rule ccontr)
    assume "\<not> i < j"
    then consider "j < i" | "i = j" by linarith
    then show False
    proof cases
      case 1
      with sorted iL have "not_above (?L ! j) (?L ! i)"
        by (simp add: sorted_wrt_iff_nth_less)
      with above show False ..
    next
      case 2
      with \<open>strict_prefix ?p ?q\<close> show False by simp
    qed
  qed
qed

theorem folder_before_nested_witness:
  "well_formed_listing Win32 example_tree \<and> backslash_free_listing example_tree \<and>
   run Win32 example_tree = Inr example_state \<and>
   output' example_state = map (record_of Win32) (preorder_listing [] example_tree) \<and>
   type (output' example_state ! 0) = ''folder'' \<and>
   nested_under (path (output' example_state ! 2)) (path (output' example_state ! 0)) \<and>
   (0 :: nat) < 2"
proof -
  note th = folder_before_nested[OF example_tree_well_formed run_example_tree]
  have l: "0 < length (output' example_state)" "2 < length (output' example_state)"
    by (simp_all add: example_state_def)
  have t: "type (output' example_state ! 0) = ''folder''"
    by (simp add: example_state_def)
  have n: "nested_under (path (output' example_state ! 2)) (path (output' example_state ! 0))"
    by (simp add: example_state_def nested_under_def)
  from th l t n have "(0 :: nat) < 2" by blast
  with th t n example_tree_well_formed run_example_tree show ?thesis by blast
qed

text \<open>
  On POSIX, beside a folder \<open>x\<close> that holds a folder \<open>y\<close> with a file \<open>z\<close>, an empty
  folder named \<^verbatim>\<open>x\y\<close> is listed after \<open>x\<close> and gets the path \<open>x/y\<close>: the record of
  the file, with the path \<open>x/y/z\<close> nested under it, has the index 2 and comes before
  this folder, which has the index 3.
\<close>

theorem folder_after_nested_counterexample:
  "well_formed_listing Posix order_tree \<and>
   run Posix order_tree = Inr order_state \<and>
   map path (output' order_state) = [''x'', ''x/y'', ''x/y/z'', ''x/y''] \<and>
   type (output' order_state ! 3) = ''folder'' \<and>
   nested_under (path (output' order_state ! 2)) (path (output' order_state ! 3)) \<and>
   \<not> (3 :: nat) < 2"
  by (simp add: order_tree_def order_state_def valid_name_def backslash_def nested_under_def
        run_def initial_state_def file_step_def folder_step_def
        folder_record_def path_join_def relative_path_def path_relative_def
        replace_backslashes_def path_extname_def toLowerCase_def
        toLowerCase_unit_def category_of_def CATEGORY_MAP_def html_metadata_def Let_def)

subsection \<open>Uniqueness\<close>

text \<open>
  Claim C8, as amended. On a tree of the file system in which no name holds a backslash
  (on Windows no name does), the walk records every entry below the root once, no two
  entries having the same full path, and no two records have the same path.
\<close>

theorem paths_are_unique:
  assumes "well_formed_listing plat root" and "backslash_free_listing root"
    and "run plat root = Inr st"
  shows "output' st = map (record_of plat) (preorder_listing [] root) \<and>
         distinct (map fst (preorder_listing [] root)) \<and>
         distinct (map path (output' st))"
proof (intro conjI)
  let ?L = "preorder_listing [] root"
  show o: "output' st = map (record_of plat) ?L"
    using assms(3) by (rule run_output)
  show d: "distinct (map fst ?L)"
    using preorder_listing_sorted[OF assms(1)] by simp
  have inj: "inj_on (relative_path plat) (set (map fst ?L))"
  proof (rule inj_on_inverseI[where g = "split_on CHR ''/''"])
    fix p assume "p \<in> set (map fst ?L)"
    then obtain x where "x \<in> set ?L" "p = fst x" by auto
    then show "split_on CHR ''/'' (relative_path plat p) = p"
      using preorder_listing_path(2)[OF assms(1,2)] by simp
  qed
  have "map path (output' st) = map (relative_path plat) (map fst ?L)"
    unfolding o by (simp add: path_record_of)
  then show "distinct (map path (output' st))"
    using d inj by (simp only: distinct_map simp_thms)
qed

theorem paths_are_unique_witness:
  "well_formed_listing Win32 example_tree \<and> backslash_free_listing example_tree \<and>
   run Win32 example_tree = Inr example_state \<and>
   distinct (map path (output' example_state)) \<and>
   map path (output' example_state) =
     [''assets'', ''assets/js'', ''assets/js/export-index-tree.js'', ''assets/data'',
      ''index.html'', ''README'']"
proof -
  note th = paths_are_unique[OF example_tree_well_formed run_example_tree]
  have "map path (output' example_state) =
     [''assets'', ''assets/js'', ''assets/js/export-index-tree.js'', ''assets/data'',
      ''index.html'', ''README'']"
    by (simp add: example_state_def)
  with th example_tree_well_formed run_example_tree show ?thesis by blast
qed

text \<open>
  On POSIX the file \<^verbatim>\<open>a\b\<close> and the file \<open>b\<close> of the folder \<open>a\<close> are two entries with
  the one path \<open>a/b\<close>.
\<close>

theorem paths_clash_counterexample:
  "well_formed_listing Posix clash_tree \<and>
   run Posix clash_tree = Inr clash_state \<and>
   map path (output' clash_state) = [''a'', ''a/b'', ''a/b''] \<and>
   \<not> distinct (map path (output' clash_state))"
  by (simp add: clash_tree_def clash_state_def valid_name_def backslash_def
        run_def initial_state_def file_step_def folder_step_def
        folder_record_def path_join_def relative_path_def path_relative_def
        replace_backslashes_def path_extname_def toLowerCase_def
        toLowerCase_unit_def category_of_def CATEGORY_MAP_def html_metadata_def Let_def)

subsection \<open>Normal form\<close>

text \<open>
  Claim C7, as amended. On a tree of the file system in which no name holds a backslash
  (on Windows no name does), the path of every record is the names from below the root
  down to the entry, joined by slashes: it holds no backslash, it does not begin with a
  slash, and none of its segments between slashes is \<open>..\<close>.
\<close>

theorem paths_are_normalized:
  assumes "well_formed_listing plat root" and "backslash_free_listing root"
    and "run plat root = Inr st"
  shows "\<forall>r \<in> set (output' st).
           (\<exists>x \<in> set (preorder_listing [] root).
              r = record_of plat x \<and>
              path r = join_with CHR ''/'' (fst x) \<and>
              split_on CHR ''/'' (path r) = fst x) \<and>
           backslash \<notin> set (path r) \<and>
           \<not> prefix ''/'' (path r) \<and>
           ''..'' \<notin> set (split_on CHR ''/'' (path r))"
proof
  let ?L = "preorder_listing [] root"
  fix r assume "r \<in> set (output' st)"
  then obtain x where x: "x \<in> set ?L" and r: "r = record_of plat x"
    using run_output[OF assms(3)] by auto
  note pl = preorder_listing_plain[OF assms(1,2) x]
  note pp = preorder_listing_path[OF assms(1,2) x]
  have p: "path r = join_with CHR ''/'' (fst x)"
    unfolding r path_record_of by (rule pp(1))
  have s: "split_on CHR ''/'' (path r) = fst x"
    unfolding r path_record_of by (rule pp(2))
  have b: "backslash \<notin> set (path r)"
  proof -
    have "backslash \<notin> set (join_with CHR ''/'' segs)"
      if "\<forall>n \<in> set segs. backslash \<notin> set n" for segs
      using that by (induction "CHR ''/''" segs rule: join_with.induct)
                    (simp_all add: backslash_def)
    then show ?thesis unfolding p using pl(2) by simp
  qed
  have n: "\<not> prefix ''/'' (path r)"
  proof
    assume "prefix ''/'' (path r)"
    then obtain z where "path r = [] @ CHR ''/'' # z" by (auto simp: prefix_def)
    then have "split_on CHR ''/'' (path r) = [] # split_on CHR ''/'' z"
      by simp
    with s have "[] \<in> set (fst x)" by (metis list.set_intros(1))
    with pl(2) show False by blast
  qed
  have d: "''..'' \<notin> set (split_on CHR ''/'' (path r))"
    unfolding s using pl(2) by blast
  from x r p s b n d
  show "(\<exists>x \<in> set ?L. r = record_of plat x \<and> path r = join_with CHR ''/'' (fst x) \<and>
              split_on CHR ''/'' (path r) = fst x) \<and>
           backslash \<notin> set (path r) \<and> \<not> prefix ''/'' (path r) \<and>
           ''..'' \<notin> set (split_on CHR ''/'' (path r))"
    by blast
qed

theorem paths_are_normalized_witness:
  "well_formed_listing Win32 example_tree \<and> backslash_free_listing example_tree \<and>
   run Win32 example_tree = Inr example_state \<and>
   map (\<lambda>r. split_on CHR ''/'' (path r)) (output' example_state) =
     [[''assets''], [''assets'', ''js''], [''assets'', ''js'', ''export-index-tree.js''],
      [''assets'', ''data''], [''index.html''], [''README'']] \<and>
   \<not> prefix ''/'' (path (output' example_state ! 2)) \<and>
   ''..'' \<notin> set (split_on CHR ''/'' (path (output' example_state ! 2)))"
proof -
  note th = paths_are_normalized[OF example_tree_well_formed run_example_tree]
  have m: "output' example_state ! 2 \<in> set (output' example_state)"
    by (simp add: example_state_def)
  have s: "map (\<lambda>r. split_on CHR ''/'' (path r)) (output' example_state) =
     [[''assets''], [''assets'', ''js''], [''assets'', ''js'', ''export-index-tree.js''],
      [''assets'', ''data''], [''index.html''], [''README'']]"
    by (simp add: example_state_def)
  from th m have "\<not> prefix ''/'' (path (output' example_state ! 2)) \<and>
   ''..'' \<notin> set (split_on CHR ''/'' (path (output' example_state ! 2)))"
    by blast
  with s example_tree_well_formed run_example_tree show ?thesis by blast
qed

text \<open>
  On POSIX the path of a file named \<^verbatim>\<open>\x\<close> is \<open>/x\<close>, which begins with a slash; and on
  every platform the path of a file named \<open>a..b\<close> contains two dots in a row.
\<close>

theorem paths_not_normalized_counterexample:
  "well_formed_listing Posix dots_tree \<and>
   run Posix dots_tree = Inr dots_state \<and>
   map path (output' dots_state) = [''/x'', ''a..b''] \<and>
   prefix ''/'' (path (output' dots_state ! 0)) \<and>
   sublist ''..'' (path (output' dots_state ! 1))"
proof -
  have "''a..b'' = ''a'' @ ''..'' @ ''b''" by simp
  then have "sublist ''..'' ''a..b''" unfolding sublist_def by blast
  then show ?thesis
  by (simp add: dots_tree_def dots_state_def valid_name_def backslash_def
        run_def initial_state_def file_step_def folder_step_def
        folder_record_def path_join_def relative_path_def path_relative_def
        replace_backslashes_def path_extname_def toLowerCase_def
        toLowerCase_unit_def category_of_def CATEGORY_MAP_def html_metadata_def Let_def)
qed

section \<open>What the patterns match\<close>

subsection \<open>Words and the search\<close>

lemma ci_eq_length: "ci_eq a b \<Longrightarrow> length a = length b"
  unfolding ci_eq_def by (rule map_eq_imp_length_eq)

lemma ci_eq_Nil [simp]: "ci_eq [] b \<longleftrightarrow> b = []" "ci_eq a [] \<longleftrightarrow> a = []"
  by (auto simp: ci_eq_def)

lemma ci_eq_Cons:
  "ci_eq (x # xs) (y # ys) \<longleftrightarrow> canonicalize x = canonicalize y \<and> ci_eq xs ys"
  by (auto simp: ci_eq_def)

lemma lit_ci_iff: "lit_ci p s = Some r \<longleftrightarrow> (\<exists>m. s = m @ r \<and> ci_eq m p)"
proof (induction p s rule: lit_ci.induct)
  case (1 s)
  then show ?case by auto
next
  case (2 p ps)
  then show ?case by (auto simp: ci_eq_def)
next
  case (3 p ps c cs)
  show ?case
  proof
    assume "lit_ci (p # ps) (c # cs) = Some r"
    then have c: "canonicalize p = canonicalize c" and "lit_ci ps cs = Some r"
      by (auto split: if_splits)
    with 3 obtain m where "cs = m @ r" "ci_eq m ps" by auto
    with c have "c # cs = (c # m) @ r \<and> ci_eq (c # m) (p # ps)"
      by (simp add: ci_eq_Cons)
    then show "\<exists>m. c # cs = m @ r \<and> ci_eq m (p # ps)" by blast
  next
    assume "\<exists>m. c # cs = m @ r \<and> ci_eq m (p # ps)"
    then obtain m where m: "c # cs = m @ r" "ci_eq m (p # ps)" by blast
    from m(2) obtain x xs where x: "m = x # xs" by (cases m) auto
    from m x have "x = c" "cs = xs @ r" "canonicalize c = canonicalize p" "ci_eq xs ps"
      by (auto simp: ci_eq_Cons)
    with 3 show "lit_ci (p # ps) (c # cs) = Some r" by auto
  qed
qed

lemma lit_ci_starts: "lit_ci p s \<noteq> None \<longleftrightarrow> starts_ci p s"
proof
  assume "lit_ci p s \<noteq> None"
  then obtain r m where "s = m @ r" "ci_eq m p" by (auto simp: lit_ci_iff)
  then show "starts_ci p s" using ci_eq_length[of m p] by (simp add: starts_ci_def)
next
  assume "starts_ci p s"
  then have "s = take (length p) s @ drop (length p) s \<and> ci_eq (take (length p) s) p"
    by (simp add: starts_ci_def)
  then have "lit_ci p s = Some (drop (length p) s)" unfolding lit_ci_iff by blast
  then show "lit_ci p s \<noteq> None" by simp
qed


lemma regex_search_None:
  "regex_search at s = None \<longleftrightarrow> (\<forall>i. at (drop i s) = None)"
proof (induction s)
  case Nil
  then show ?case by simp
next
  case (Cons c cs)
  show ?case
  proof (cases "at (c # cs)")
    case (Some m')
    have "\<not> (\<forall>i. at (drop i (c # cs)) = None)"
    proof
      assume "\<forall>i. at (drop i (c # cs)) = None"
      then have "at (drop 0 (c # cs)) = None" ..
      with Some show False by simp
    qed
    with Some show ?thesis by simp
  next
    case None
    have "(\<forall>i. at (drop i (c # cs)) = None) \<longleftrightarrow> (\<forall>i. at (drop i cs) = None)"
    proof
      assume a: "\<forall>i. at (drop i (c # cs)) = None"
      show "\<forall>i. at (drop i cs) = None"
      proof
        fix i from a have "at (drop (Suc i) (c # cs)) = None" by blast
        then show "at (drop i cs) = None" by simp
      qed
    next
      assume a: "\<forall>i. at (drop i cs) = None"
      show "\<forall>i. at (drop i (c # cs)) = None"
      proof
        fix i show "at (drop i (c # cs)) = None"
          using None a by (cases i) simp_all
      qed
    qed
    with None Cons.IH show ?thesis by simp
  qed
qed

subsection \<open>The title pattern\<close>

lemma starts_ci_append: "ci_eq m p \<Longrightarrow> starts_ci p (m @ r)"
  using ci_eq_length[of m p] by (simp add: starts_ci_def)

lemma title_group_iff:
  "title_group s = Some t \<longleftrightarrow>
     (\<exists>cl post. s = t @ cl @ post \<and> ci_eq cl ''</title>'' \<and>
        (\<forall>c \<in> set t. \<not> isLineTerminator c) \<and>
        (\<forall>k < length t. \<not> starts_ci ''</title>'' (drop k s)))"
  (is "?L s t \<longleftrightarrow> ?R s t")
proof (induction s arbitrary: t)
  case Nil
  then show ?case by (auto simp: ci_eq_def)
next
  case (Cons c cs)
  show ?case
  proof (cases "lit_ci ''</title>'' (c # cs)")
    case (Some r)
    then have l: "?L (c # cs) t \<longleftrightarrow> t = []" by auto
    from Some obtain m where m: "c # cs = m @ r" "ci_eq m ''</title>''"
      unfolding lit_ci_iff by blast
    have st: "starts_ci ''</title>'' (c # cs)"
      using Some lit_ci_starts[of "''</title>''" "c # cs"] by simp
    have "?R (c # cs) t \<longleftrightarrow> t = []"
    proof
      assume r: "?R (c # cs) t"
      show "t = []"
      proof (rule ccontr)
        assume "t \<noteq> []"
        then have "0 < length t" by simp
        with r have "\<not> starts_ci ''</title>'' (drop 0 (c # cs))" by blast
        with st show False by simp
      qed
    next
      assume "t = []"
      with m show "?R (c # cs) t" by auto
    qed
    with l show ?thesis by simp
  next
    case None
    then have nst: "\<not> starts_ci ''</title>'' (c # cs)"
      using lit_ci_starts[of "''</title>''" "c # cs"] by simp
    have not_nil: "\<not> ?R (c # cs) []"
      using nst by (auto dest: starts_ci_append)
    show ?thesis
    proof (cases "isLineTerminator c")
      case True
      with None have l: "title_group (c # cs) = None" by simp
      have "\<not> ?R (c # cs) t"
      proof (cases t)
        case Nil
        with not_nil show ?thesis by simp
      next
        case (Cons x xs)
        with True show ?thesis by auto
      qed
      with l show ?thesis by simp
    next
      case False
      with None have l: "title_group (c # cs) = map_option ((#) c) (title_group cs)" by simp
      show ?thesis
      proof (cases t)
        case Nil
        with not_nil l show ?thesis by auto
      next
        case (Cons x xs)
        have "?R (c # cs) (x # xs) \<longleftrightarrow> x = c \<and> ?R cs xs"
        proof
          assume r: "?R (c # cs) (x # xs)"
          then obtain cl post where a: "c # cs = (x # xs) @ cl @ post" "ci_eq cl ''</title>''"
            "\<forall>c \<in> set (x # xs). \<not> isLineTerminator c"
            "\<forall>k < length (x # xs). \<not> starts_ci ''</title>'' (drop k (c # cs))"
            by blast
          have "\<forall>k < length xs. \<not> starts_ci ''</title>'' (drop k cs)"
          proof (intro allI impI)
            fix k assume "k < length xs"
            then have "Suc k < length (x # xs)" by simp
            with a(4) have "\<not> starts_ci ''</title>'' (drop (Suc k) (c # cs))" by blast
            then show "\<not> starts_ci ''</title>'' (drop k cs)" by simp
          qed
          with a show "x = c \<and> ?R cs xs" by auto
        next
          assume r: "x = c \<and> ?R cs xs"
          then obtain cl post where a: "x = c" "cs = xs @ cl @ post" "ci_eq cl ''</title>''"
            "\<forall>c \<in> set xs. \<not> isLineTerminator c"
            "\<forall>k < length xs. \<not> starts_ci ''</title>'' (drop k cs)"
            by blast
          have "\<forall>k < length (x # xs). \<not> starts_ci ''</title>'' (drop k (c # cs))"
          proof (intro allI impI)
            fix k assume "k < length (x # xs)"
            then show "\<not> starts_ci ''</title>'' (drop k (c # cs))"
              using nst a(5) by (cases k) simp_all
          qed
          moreover have "c # cs = (x # xs) @ cl @ post" using a by simp
          moreover have "\<forall>c \<in> set (x # xs). \<not> isLineTerminator c" using a False by simp
          ultimately show "?R (c # cs) (x # xs)" using a(3) by blast
        qed
        with l Cons Cons.IH[of xs] show ?thesis by auto
      qed
    qed
  qed
qed

lemma title_at_iff: "title_at s = Some t \<longleftrightarrow> title_pair s t"
proof
  assume "title_at s = Some t"
  then obtain r where r: "lit_ci ''<title>'' s = Some r" "title_group r = Some t"
    by (auto simp: title_at_def split: option.splits)
  from r(1) obtain op where op: "s = op @ r" "ci_eq op ''<title>''"
    unfolding lit_ci_iff by blast
  from r(2) obtain cl post where "r = t @ cl @ post" "ci_eq cl ''</title>''"
        "\<forall>c \<in> set t. \<not> isLineTerminator c"
        "\<forall>k < length t. \<not> starts_ci ''</title>'' (drop k r)"
    unfolding title_group_iff by blast
  with op show "title_pair s t" unfolding title_pair_def by blast
next
  assume "title_pair s t"
  then obtain op cl post where a: "s = op @ t @ cl @ post" "ci_eq op ''<title>''"
      "ci_eq cl ''</title>''" "\<forall>c \<in> set t. \<not> isLineTerminator c"
      "\<forall>k < length t. \<not> starts_ci ''</title>'' (drop k (t @ cl @ post))"
    unfolding title_pair_def by blast
  from a(1,2) have "lit_ci ''<title>'' s = Some (t @ cl @ post)"
    unfolding lit_ci_iff by blast
  moreover from a(3,4,5) have "title_group (t @ cl @ post) = Some t"
    unfolding title_group_iff by blast
  ultimately show "title_at s = Some t" by (simp add: title_at_def)
qed



subsection \<open>The sitemap pattern\<close>

lemma of_char_canonicalize:
  "(of_char (canonicalize c) :: nat) =
     (if 97 \<le> (of_char c :: nat) \<and> (of_char c :: nat) \<le> 122 then of_char c - 32 else of_char c)"
  by (auto simp: canonicalize_def Let_def)








subsection \<open>The metadata of a readable page\<close>


lemma file_step_readable_html:
  assumes "toLowerCase (path_extname nm) = ''.html''"
  shows "file_step plat dir nm (Inr n) (Inr contents) st =
     Inr (st\<lparr>fileCount := fileCount st + 1,
             output' := output' st @
               [\<lparr>name = nm, path = relative_path plat (dir @ [nm]), type = ''file'',
                 ext = Some ''.html'', size' = Some n,
                 title = map_option trim (titleMatch contents),
                 sitemap = Some (case sitemapMatch contents of
                                   Some v \<Rightarrow> toLowerCase v
                                 | None \<Rightarrow> ''none''),
                 category = Some ''markup''\<rparr>]\<rparr>)"
  using assms
  by (simp add: file_step_def Let_def html_metadata_def path_join_def category_of_def
        CATEGORY_MAP_def)

lemma search_None_iff:
  assumes "\<And>s m. at s = Some m \<longleftrightarrow> P s m"
  shows "regex_search at s = None \<longleftrightarrow> (\<forall>i m. \<not> P (drop i s) m)"
proof -
  have n: "at u = None \<longleftrightarrow> (\<forall>m'. \<not> P u m')" for u
    using assms[of u] by (cases "at u") auto
  show ?thesis unfolding regex_search_None by (simp add: n)
qed

lemma a_html: "toLowerCase (path_extname ''a.html'') = ''.html''"
  by (simp add: path_extname_def toLowerCase_def toLowerCase_unit_def)








subsection \<open>A meta tag with the content first\<close>

lemma ci_eq_ConsD:
  "ci_eq m (p # ps) \<Longrightarrow> \<exists>x xs. m = x # xs \<and> canonicalize x = canonicalize p \<and> ci_eq xs ps"
  by (cases m) (auto simp: ci_eq_Cons)






subsection \<open>A title on two lines\<close>

lemma regex_search_skip:
  "\<forall>k < length pre. at (drop k (pre @ s)) = None \<Longrightarrow>
     regex_search at (pre @ s) = regex_search at s"
proof (induction pre)
  case Nil
  then show ?case by simp
next
  case (Cons c cs)
  from Cons.prems have "at (drop 0 ((c # cs) @ s)) = None" by blast
  then have h: "at (c # cs @ s) = None" by simp
  have "\<forall>k < length cs. at (drop k (cs @ s)) = None"
  proof (intro allI impI)
    fix k assume "k < length cs"
    then have "Suc k < length (c # cs)" by simp
    with Cons.prems have "at (drop (Suc k) ((c # cs) @ s)) = None" by blast
    then show "at (drop k (cs @ s)) = None" by simp
  qed
  with Cons.IH h show ?case by simp
qed

lemma line_terminator_canonical:
  "isLineTerminator c \<Longrightarrow> canonicalize CHR ''<'' \<noteq> canonicalize c"
proof
  assume l: "isLineTerminator c" and e: "canonicalize CHR ''<'' = canonicalize c"
  from e have "(of_char (canonicalize CHR ''<'') :: nat) = of_char (canonicalize c)" by simp
  with l show False
    unfolding of_char_canonicalize isLineTerminator_def by (auto split: if_splits)
qed

lemma title_group_line_break:
  assumes "isLineTerminator nl"
  shows "\<forall>k < length a. \<not> starts_ci ''</title>'' (drop k (a @ nl # b)) \<Longrightarrow>
         title_group (a @ nl # b) = None"
proof (induction a)
  case Nil
  from line_terminator_canonical[OF assms] have "lit_ci ''</title>'' (nl # b) = None" by simp
  with assms show ?case by simp
next
  case (Cons x xs)
  from Cons.prems have "\<not> starts_ci ''</title>'' (drop 0 ((x # xs) @ nl # b))" by blast
  then have h: "lit_ci ''</title>'' (x # xs @ nl # b) = None"
    using lit_ci_starts[of "''</title>''" "x # xs @ nl # b"] by simp
  have "\<forall>k < length xs. \<not> starts_ci ''</title>'' (drop k (xs @ nl # b))"
  proof (intro allI impI)
    fix k assume "k < length xs"
    then have "Suc k < length (x # xs)" by simp
    with Cons.prems have "\<not> starts_ci ''</title>'' (drop (Suc k) ((x # xs) @ nl # b))" by blast
    then show "\<not> starts_ci ''</title>'' (drop k (xs @ nl # b))" by simp
  qed
  from Cons.IH[OF this] h show ?case by simp
qed

lemma title_at_inside_opening_tag:
  assumes "ci_eq op ''<title>''" and "0 < k" and "k < length op"
  shows "title_at (drop k (op @ s)) = None"
proof -
  from assms(1) obtain o0 o1 o2 o3 o4 o5 o6 where
    op: "op = [o0, o1, o2, o3, o4, o5, o6]"
    and c: "canonicalize o1 = canonicalize CHR ''t''" "canonicalize o2 = canonicalize CHR ''i''"
      "canonicalize o3 = canonicalize CHR ''t''" "canonicalize o4 = canonicalize CHR ''l''"
      "canonicalize o5 = canonicalize CHR ''e''" "canonicalize o6 = canonicalize CHR ''>''"
    by (auto dest!: ci_eq_ConsD)
  have ne: "canonicalize CHR ''<'' \<noteq> canonicalize CHR ''t''"
    "canonicalize CHR ''<'' \<noteq> canonicalize CHR ''i''"
    "canonicalize CHR ''<'' \<noteq> canonicalize CHR ''l''"
    "canonicalize CHR ''<'' \<noteq> canonicalize CHR ''e''"
    "canonicalize CHR ''<'' \<noteq> canonicalize CHR ''>''"
    by code_simp+
  from assms(2,3) op consider "k = 1" | "k = 2" | "k = 3" | "k = 4" | "k = 5" | "k = 6"
    by (auto simp: less_Suc_eq)
  then show ?thesis
    by cases (simp_all add: op title_at_def c ne)
qed

text \<open>
  Claim C10, as amended. When the first opening title tag of a page is followed by a line
  terminator before any closing title tag, the title pattern does not match at that
  tag, and the search goes on behind it: the title of the record is the trimmed capture
  of the first match in the rest of the page, and it is null exactly when the rest holds
  no title pair on one line.
\<close>

theorem title_on_two_lines_is_skipped:
  assumes "toLowerCase (path_extname nm) = ''.html''"
    and "ci_eq op ''<title>''" and "isLineTerminator nl"
    and "contents = pre @ op @ a @ nl # b"
    and "\<forall>k < length pre. \<not> starts_ci ''<title>'' (drop k contents)"
    and "\<forall>k < length a. \<not> starts_ci ''</title>'' (drop k (a @ nl # b))"
  shows "title_at (op @ a @ nl # b) = None \<and>
         titleMatch contents = titleMatch (a @ nl # b) \<and>
         file_step plat dir nm (Inr n) (Inr contents) st =
           Inr (st\<lparr>fileCount := fileCount st + 1,
                   output' := output' st @
                     [\<lparr>name = nm, path = relative_path plat (dir @ [nm]), type = ''file'',
                       ext = Some ''.html'', size' = Some n,
                       title = map_option trim (titleMatch (a @ nl # b)),
                       sitemap = Some (case sitemapMatch contents of
                                         Some v \<Rightarrow> toLowerCase v
                                       | None \<Rightarrow> ''none''),
                       category = Some ''markup''\<rparr>]\<rparr>) \<and>
         (titleMatch (a @ nl # b) = None \<longleftrightarrow>
            (\<forall>i t. \<not> title_pair (drop i (a @ nl # b)) t))"
proof (intro conjI)
  let ?x = "a @ nl # b"
  have "lit_ci ''<title>'' (op @ ?x) = Some ?x"
    unfolding lit_ci_iff using assms(2) by blast
  moreover have "title_group ?x = None"
    using assms(3,6) by (rule title_group_line_break)
  ultimately show a0: "title_at (op @ ?x) = None"
    by (simp add: title_at_def)
  have "\<forall>k < length pre. title_at (drop k (pre @ op @ ?x)) = None"
  proof (intro allI impI)
    fix k assume "k < length pre"
    with assms(5) have "\<not> starts_ci ''<title>'' (drop k contents)" by blast
    then have "lit_ci ''<title>'' (drop k contents) = None"
      using lit_ci_starts[of "''<title>''" "drop k contents"] by simp
    then show "title_at (drop k (pre @ op @ ?x)) = None"
      unfolding assms(4) by (simp add: title_at_def)
  qed
  then have 1: "titleMatch contents = titleMatch (op @ ?x)"
    unfolding titleMatch_def assms(4) by (rule regex_search_skip)
  have "\<forall>k < length op. title_at (drop k (op @ ?x)) = None"
  proof (intro allI impI)
    fix k assume k: "k < length op"
    show "title_at (drop k (op @ ?x)) = None"
    proof (cases "k = 0")
      case True
      with a0 show ?thesis by simp
    next
      case False
      show ?thesis
        by (rule title_at_inside_opening_tag[OF assms(2)]) (use k False in simp_all)
    qed
  qed
  then have 2: "titleMatch (op @ ?x) = titleMatch ?x"
    unfolding titleMatch_def by (rule regex_search_skip)
  from 1 2 show t: "titleMatch contents = titleMatch ?x" by simp
  show "file_step plat dir nm (Inr n) (Inr contents) st =
           Inr (st\<lparr>fileCount := fileCount st + 1,
                   output' := output' st @
                     [\<lparr>name = nm, path = relative_path plat (dir @ [nm]), type = ''file'',
                       ext = Some ''.html'', size' = Some n,
                       title = map_option trim (titleMatch ?x),
                       sitemap = Some (case sitemapMatch contents of
                                         Some v \<Rightarrow> toLowerCase v
                                       | None \<Rightarrow> ''none''),
                       category = Some ''markup''\<rparr>]\<rparr>)"
    unfolding file_step_readable_html[OF assms(1)] t ..
  show "titleMatch ?x = None \<longleftrightarrow> (\<forall>i t. \<not> title_pair (drop i ?x) t)"
    unfolding titleMatch_def by (rule search_None_iff) (rule title_at_iff)
qed

lemma two_line_title_page_matches:
  "titleMatch (''My'' @ CHR 0x0A # ''Page</title><svg><title>Icon</title></svg>'') = Some ''Icon''"
  "sitemapMatch two_line_title_page = None"
  "trim ''Icon'' = ''Icon''"
  by code_simp+

theorem title_on_two_lines_is_skipped_witness:
  "toLowerCase (path_extname ''a.html'') = ''.html'' \<and>
   two_line_title_page =
     [] @ ''<title>'' @ ''My'' @ CHR 0x0A # ''Page</title><svg><title>Icon</title></svg>'' \<and>
   isLineTerminator (CHR 0x0A) \<and>
   titleMatch two_line_title_page = Some ''Icon'' \<and>
   file_step Posix [] ''a.html'' (Inr 52) (Inr two_line_title_page) initial_state =
     Inr \<lparr>output' = [\<lparr>name = ''a.html'', path = ''a.html'', type = ''file'',
                      ext = Some ''.html'', size' = Some 52, title = Some ''Icon'',
                      sitemap = Some ''none'', category = Some ''markup''\<rparr>],
          folderCount = 0, fileCount = 1, parseWarnings = 0\<rparr>"
proof -
  let ?b = "''Page</title><svg><title>Icon</title></svg>''"
  have c: "two_line_title_page = [] @ ''<title>'' @ ''My'' @ CHR 0x0A # ?b"
    by (simp add: two_line_title_page_def)
  have nl: "isLineTerminator (CHR 0x0A)" by (simp add: isLineTerminator_def)
  have e: "ci_eq ''<title>'' ''<title>''" by (simp add: ci_eq_def)
  have h1: "\<forall>k < length ([] :: string). \<not> starts_ci ''<title>'' (drop k two_line_title_page)"
    by simp
  have h2: "\<forall>k < length ''My''. \<not> starts_ci ''</title>'' (drop k (''My'' @ CHR 0x0A # ?b))"
    by (simp add: less_Suc_eq starts_ci_def ci_eq_def canonicalize_def)
  have p: "relative_path Posix [''a.html''] = ''a.html''"
    by (simp add: relative_path_def path_relative_def replace_backslashes_def backslash_def)
  note th = title_on_two_lines_is_skipped[OF a_html e nl c h1 h2, of Posix "[]" 52 initial_state]
  from th have t: "titleMatch two_line_title_page = Some ''Icon''"
    unfolding two_line_title_page_matches(1) by blast
  from th have "file_step Posix [] ''a.html'' (Inr 52) (Inr two_line_title_page) initial_state =
           Inr (initial_state\<lparr>fileCount := fileCount initial_state + 1,
                   output' := output' initial_state @
                     [\<lparr>name = ''a.html'', path = relative_path Posix ([] @ [''a.html'']),
                       type = ''file'', ext = Some ''.html'', size' = Some 52,
                       title = map_option trim
                         (titleMatch (''My'' @ CHR 0x0A # ?b)),
                       sitemap = Some (case sitemapMatch two_line_title_page of
                                         Some v \<Rightarrow> toLowerCase v
                                       | None \<Rightarrow> ''none''),
                       category = Some ''markup''\<rparr>]\<rparr>)"
    by blast
  then have "file_step Posix [] ''a.html'' (Inr 52) (Inr two_line_title_page) initial_state =
     Inr \<lparr>output' = [\<lparr>name = ''a.html'', path = ''a.html'', type = ''file'',
                      ext = Some ''.html'', size' = Some 52, title = Some ''Icon'',
                      sitemap = Some ''none'', category = Some ''markup''\<rparr>],
          folderCount = 0, fileCount = 1, parseWarnings = 0\<rparr>"
    unfolding two_line_title_page_matches(1,2)
    by (simp add: p initial_state_def two_line_title_page_matches(3))
  with a_html c nl t show ?thesis by blast
qed

text \<open>
  A page whose title takes two lines, followed by an image with a title of its own: the
  record gets the title of the image, \<open>Icon\<close>, where the claim promises null.
\<close>

theorem title_on_two_lines_counterexample:
  "two_line_title_page =
     ''<title>'' @ ''My'' @ CHR 0x0A # ''Page'' @ ''</title>'' @ ''<svg><title>Icon</title></svg>'' \<and>
   isLineTerminator (CHR 0x0A) \<and>
   toLowerCase (path_extname ''a.html'') = ''.html'' \<and>
   file_step Posix [] ''a.html'' (Inr 52) (Inr two_line_title_page) initial_state =
     Inr \<lparr>output' = [\<lparr>name = ''a.html'', path = ''a.html'', type = ''file'',
                      ext = Some ''.html'', size' = Some 52, title = Some ''Icon'',
                      sitemap = Some ''none'', category = Some ''markup''\<rparr>],
          folderCount = 0, fileCount = 1, parseWarnings = 0\<rparr> \<and>
   Some ''Icon'' \<noteq> (None :: string option)"
proof -
  have "file_step Posix [] ''a.html'' (Inr 52) (Inr two_line_title_page) initial_state =
     Inr \<lparr>output' = [\<lparr>name = ''a.html'', path = ''a.html'', type = ''file'',
                      ext = Some ''.html'', size' = Some 52, title = Some ''Icon'',
                      sitemap = Some ''none'', category = Some ''markup''\<rparr>],
          folderCount = 0, fileCount = 1, parseWarnings = 0\<rparr>"
    by code_simp
  moreover have "two_line_title_page =
     ''<title>'' @ ''My'' @ CHR 0x0A # ''Page'' @ ''</title>'' @ ''<svg><title>Icon</title></svg>''"
    by (simp add: two_line_title_page_def)
  moreover have "isLineTerminator (CHR 0x0A)" by (simp add: isLineTerminator_def)
  ultimately show ?thesis using a_html by simp
qed

end
